theory Spec2Isabelle
  imports Main "HOL-Library.Word"
begin

section \<open>MathH: a dense matrix over a flat buffer, and its product\<close>

text \<open>
  The header \<^verbatim>\<open>include/MathH/MathH.h\<close> declares the class template
  \<^verbatim>\<open>Matrix<T>\<close> (two \<^verbatim>\<open>size_t\<close> dimensions and a \<^verbatim>\<open>std::vector<T>\<close>
  addressed in row-major order) and \<^verbatim>\<open>MathHClass<T>::multiply\<close>.

  \<^item> \<^verbatim>\<open>size_t\<close> is a 64-bit unsigned integer (LP64 and LLP64 targets): the
    type \<open>64 word\<close>, whose \<open>+\<close> and \<open>*\<close> wrap around as the C++ ones do.
  \<^item> The element type \<^verbatim>\<open>T\<close> is a type variable, and what the code does with
    elements is a record of operations. An operation that C++ leaves undefined
    on some arguments (the product of two signed integers that overflows, the
    conversion of a \<^verbatim>\<open>double\<close> that \<^verbatim>\<open>T\<close> cannot hold) returns \<open>None\<close> there.
    The record \<open>long_long_arith\<close> is the instance \<^verbatim>\<open>T = long long\<close>.
  \<^item> An exception is a value: \<open>Inl (Runtime_error msg)\<close> for the two
    \<^verbatim>\<open>std::runtime_error\<close> of the header, \<open>Inl Length_error\<close> for the
    \<^verbatim>\<open>std::length_error\<close> of a vector asked for more than \<^verbatim>\<open>max_size()\<close>
    elements. An access to the vector beyond its size, the dereference of
    \<^verbatim>\<open>begin()\<close> of an empty initializer list and an undefined operation on
    elements are undefined behaviour: the model stops there with
    \<open>Inl Undefined_behaviour\<close>.
  \<^item> A vector of at most \<^verbatim>\<open>max_size()\<close> elements is taken to be allocated (no
    \<^verbatim>\<open>std::bad_alloc\<close>).
\<close>

subsection \<open>Data model\<close>

type_synonym size_t = "64 word"

type_synonym long_long = "64 word"

datatype error =
    Runtime_error string
  | Length_error
  | Undefined_behaviour

record 'a Matrix =
  rows_m :: size_t
  cols_m :: size_t
  data_m :: "'a list"

text \<open>
  The arithmetic of the instantiation: \<open>'a\<close> is \<^verbatim>\<open>T\<close>, \<open>'d\<close> is
  \<^verbatim>\<open>double\<close>, and \<open>'p\<close> is the type of the expression \<^verbatim>\<open>A(i, k) * B(k, j)\<close>:
  \<^verbatim>\<open>T\<close> itself, or \<^verbatim>\<open>int\<close> where \<^verbatim>\<open>T\<close> is promoted.
\<close>

record ('a, 'p, 'd) arith =
  zero_T :: 'a                        \<comment> \<open>\<^verbatim>\<open>0.0\<close> converted to \<^verbatim>\<open>T\<close>, the fill value of the constructor\<close>
  value_init :: 'a                    \<comment> \<open>\<^verbatim>\<open>T()\<close>, what \<^verbatim>\<open>resize\<close> fills with\<close>
  zero_d :: 'd                        \<comment> \<open>the literal \<^verbatim>\<open>0.0\<close>\<close>
  times_T :: "'a \<Rightarrow> 'a \<Rightarrow> 'p option"   \<comment> \<open>\<^verbatim>\<open>x * y\<close> on two \<^verbatim>\<open>T\<close>\<close>
  plus_assign :: "'d \<Rightarrow> 'p \<Rightarrow> 'd"      \<comment> \<open>the new \<^verbatim>\<open>sum\<close> after \<^verbatim>\<open>sum += x\<close>\<close>
  from_double :: "'d \<Rightarrow> 'a option"    \<comment> \<open>the conversion of \<^verbatim>\<open>sum\<close> in \<^verbatim>\<open>C(i, j) = sum\<close>\<close>
  max_size :: size_t                  \<comment> \<open>\<^verbatim>\<open>std::vector<T>::max_size()\<close>\<close>

subsection \<open>The instance \<^verbatim>\<open>long long\<close>\<close>

text \<open>
  \<^verbatim>\<open>long long\<close> is a 64-bit two's complement integer, read by \<open>sint\<close>, and
  \<^verbatim>\<open>double\<close> is IEEE 754 binary64 with rounding to nearest, ties to even. With
  integer elements every value the accumulator takes is an integer, far below
  the largest \<^verbatim>\<open>double\<close>, so a \<^verbatim>\<open>double\<close> is modelled by the integer it
  holds. \<open>to_double x\<close> is the \<^verbatim>\<open>double\<close> nearest to the integer \<open>x\<close>: a
  \<^verbatim>\<open>double\<close> has 53 significant bits, so the lowest \<open>bit_length |x| - 53\<close> bits
  are rounded away.
\<close>

fun bit_length :: "nat \<Rightarrow> nat" where
  "bit_length n = (if n = 0 then 0 else Suc (bit_length (n div 2)))"

declare bit_length.simps [simp del]

definition round_nearest_even :: "nat \<Rightarrow> nat \<Rightarrow> nat" where
  "round_nearest_even a e =
     (let q = a div 2 ^ e; r = a mod 2 ^ e
      in if 2 ^ e < 2 * r \<or> (2 * r = 2 ^ e \<and> odd q) then (q + 1) * 2 ^ e else q * 2 ^ e)"

definition to_double :: "int \<Rightarrow> int" where
  "to_double x = sgn x * int (round_nearest_even (nat \<bar>x\<bar>) (bit_length (nat \<bar>x\<bar>) - 53))"

text \<open>
  \<^item> \<^verbatim>\<open>x * y\<close> on two \<^verbatim>\<open>long long\<close> is undefined where the product overflows.
  \<^item> \<^verbatim>\<open>sum += x\<close> converts \<open>x\<close> to \<^verbatim>\<open>double\<close> and adds: two roundings.
  \<^item> The conversion of a \<^verbatim>\<open>double\<close> to \<^verbatim>\<open>long long\<close> is undefined where the
    value is out of range.
  \<^item> \<^verbatim>\<open>max_size()\<close> is \<^verbatim>\<open>PTRDIFF_MAX / sizeof(long long)\<close>, as in libstdc++.
\<close>

definition long_long_arith :: "(long_long, long_long, int) arith" where
  "long_long_arith =
     \<lparr>zero_T = 0, value_init = 0, zero_d = 0,
      times_T = (\<lambda>x y. if - (2 ^ 63) \<le> sint x * sint y \<and> sint x * sint y < 2 ^ 63
                        then Some (x * y) else None),
      plus_assign = (\<lambda>acc x. to_double (acc + to_double (sint x))),
      from_double = (\<lambda>d. if - (2 ^ 63) \<le> d \<and> d < 2 ^ 63 then Some (word_of_int d) else None),
      max_size = 2 ^ 60 - 1\<rparr>"

subsection \<open>Construction\<close>

text \<open>
  \<^verbatim>\<open>Matrix(const size_t rows, const size_t cols)
      : rows_(rows), cols_(cols), data_(rows * cols, 0.0) {}\<close>
  The vector's constructor throws \<^verbatim>\<open>std::length_error\<close> when the count, the
  \<^verbatim>\<open>size_t\<close> product, exceeds \<^verbatim>\<open>max_size()\<close>.
\<close>

definition construct :: "('a, 'p, 'd) arith \<Rightarrow> size_t \<Rightarrow> size_t \<Rightarrow> error + 'a Matrix" where
  "construct ops rows cols =
     (if max_size ops < rows * cols then Inl Length_error
      else Inr \<lparr>rows_m = rows, cols_m = cols,
                data_m = replicate (unat (rows * cols)) (zero_T ops)\<rparr>)"

subsection \<open>Element access\<close>

text \<open>
  Both overloads of \<^verbatim>\<open>operator()\<close> are \<^verbatim>\<open>data_[r * cols_ + c]\<close>, with no check
  of \<open>r\<close> and \<open>c\<close>. \<open>elem_at\<close> is the read (the spec's \<open>get\<close>), \<open>elem_assign\<close> the
  assignment through the returned reference (the spec's \<open>set\<close>).
\<close>

definition offset :: "'a Matrix \<Rightarrow> size_t \<Rightarrow> size_t \<Rightarrow> nat" where
  "offset M r c = unat (r * cols_m M + c)"

definition elem_at :: "'a Matrix \<Rightarrow> size_t \<Rightarrow> size_t \<Rightarrow> error + 'a" where
  "elem_at M r c =
     (if offset M r c < length (data_m M) then Inr (data_m M ! offset M r c)
      else Inl Undefined_behaviour)"

definition elem_assign :: "'a Matrix \<Rightarrow> size_t \<Rightarrow> size_t \<Rightarrow> 'a \<Rightarrow> error + 'a Matrix" where
  "elem_assign M r c v =
     (if offset M r c < length (data_m M)
      then Inr (M\<lparr>data_m := (data_m M)[offset M r c := v]\<rparr>)
      else Inl Undefined_behaviour)"

definition rows :: "'a Matrix \<Rightarrow> size_t" where
  "rows M = rows_m M"

definition cols :: "'a Matrix \<Rightarrow> size_t" where
  "cols M = cols_m M"

subsection \<open>Construction from a nested initializer list\<close>

text \<open>
  \<^verbatim>\<open>rows_ = values.size();
  cols_ = values.begin()->size();
  data_.resize(rows_ * cols_);
  size_t i = 0;
  for (auto &row : values) {
      if (row.size() != cols_)
          throw std::runtime_error("Inconsistent row length");
      for (auto &val : row)
          data_[i++] = val;
  }\<close>
  The state of the two loops is the buffer and the counter \<open>i\<close>. An initializer
  list reports its size as a \<^verbatim>\<open>size_t\<close>. The elements of the literal are
  objects in memory, no more than \<^verbatim>\<open>max_size()\<close> of them, so \<^verbatim>\<open>resize\<close> is
  taken to succeed.
\<close>

fun fill_row :: "'a list \<Rightarrow> 'a list \<times> size_t \<Rightarrow> error + 'a list \<times> size_t" where
  "fill_row [] s = Inr s"
| "fill_row (val # vals) (d, i) =
     (if unat i < length d then fill_row vals (d[unat i := val], i + 1)
      else Inl Undefined_behaviour)"

fun fill_rows :: "size_t \<Rightarrow> 'a list list \<Rightarrow> 'a list \<times> size_t \<Rightarrow> error + 'a list \<times> size_t" where
  "fill_rows c [] s = Inr s"
| "fill_rows c (row # rest) s =
     (if of_nat (length row) \<noteq> c then Inl (Runtime_error ''Inconsistent row length'')
      else (case fill_row row s of
              Inl e \<Rightarrow> Inl e
            | Inr s' \<Rightarrow> fill_rows c rest s'))"

definition construct_list :: "('a, 'p, 'd) arith \<Rightarrow> 'a list list \<Rightarrow> error + 'a Matrix" where
  "construct_list ops values =
     (case values of
        [] \<Rightarrow> Inl Undefined_behaviour
      | first # _ \<Rightarrow>
          (let r = of_nat (length values);
               c = of_nat (length first);
               d = replicate (unat (r * c)) (value_init ops)
           in case fill_rows c values (d, 0) of
                Inl e \<Rightarrow> Inl e
              | Inr (d', i) \<Rightarrow> Inr \<lparr>rows_m = r, cols_m = c, data_m = d'\<rparr>))"

subsection \<open>The product\<close>

text \<open>
  \<^verbatim>\<open>Matrix<T> multiply(Matrix<T> &A, Matrix<T> &B)\<close> takes both operands by
  non-const reference and builds the local \<open>C\<close>. The three objects are the
  state of the loops, threaded through them and returned, so that what the call
  does to its operands is a property of the model and not of its type.
\<close>

record 'a frame =
  arg_A :: "'a Matrix"
  arg_B :: "'a Matrix"
  local_C :: "'a Matrix"

text \<open>
  \<^verbatim>\<open>for (size_t k = 0; k < A.cols(); ++k)
      sum += A(i, k) * B(k, j);\<close>
  A counter below its bound is below \<open>2 ^ 64 - 1\<close>, so \<^verbatim>\<open>++k\<close> does not wrap
  and each loop ends.
\<close>

function loop_k ::
  "('a, 'p, 'd) arith \<Rightarrow> 'a frame \<Rightarrow> size_t \<Rightarrow> size_t \<Rightarrow> size_t \<Rightarrow> 'd \<Rightarrow> error + 'd" where
  "loop_k ops fr i j k acc =
     (if k < cols (arg_A fr) then
        (case elem_at (arg_A fr) i k of
           Inl e \<Rightarrow> Inl e
         | Inr a \<Rightarrow>
             (case elem_at (arg_B fr) k j of
                Inl e \<Rightarrow> Inl e
              | Inr b \<Rightarrow>
                  (case times_T ops a b of
                     None \<Rightarrow> Inl Undefined_behaviour
                   | Some p \<Rightarrow> loop_k ops fr i j (k + 1) (plus_assign ops acc p))))
      else Inr acc)"
  by pat_completeness auto
termination
proof (relation "measure (\<lambda>(ops, fr, i, j, k, acc). 2 ^ 64 - unat k)")
  fix fr :: "'a frame" and k :: size_t
  assume "k < cols (arg_A fr)"
  then have "unat (k + 1) = Suc (unat k)" by unat_arith
  moreover have "unat (k + 1) < 2 ^ 64" using unsigned_less [of "k + 1"] by simp
  ultimately show "((ops, fr, i, j, k + 1, acc'), (ops, fr, i, j, k, acc))
      \<in> measure (\<lambda>(ops, fr, i, j, k, acc). 2 ^ 64 - unat k)"
    for ops :: "('a, 'p, 'd) arith" and i j :: size_t and acc acc' :: 'd
    by simp
qed simp

declare loop_k.simps [simp del]

text \<open>
  \<^verbatim>\<open>for (size_t j = 0; j < B.cols(); ++j) {
      double sum = 0.0;
      ... loop over k ...
      C(i, j) = sum;
  }\<close>
\<close>

function loop_j :: "('a, 'p, 'd) arith \<Rightarrow> 'a frame \<Rightarrow> size_t \<Rightarrow> size_t \<Rightarrow> error + 'a frame" where
  "loop_j ops fr i j =
     (if j < cols (arg_B fr) then
        (case loop_k ops fr i j 0 (zero_d ops) of
           Inl e \<Rightarrow> Inl e
         | Inr acc \<Rightarrow>
             (case from_double ops acc of
                None \<Rightarrow> Inl Undefined_behaviour
              | Some v \<Rightarrow>
                  (case elem_assign (local_C fr) i j v of
                     Inl e \<Rightarrow> Inl e
                   | Inr C' \<Rightarrow> loop_j ops (fr\<lparr>local_C := C'\<rparr>) i (j + 1))))
      else Inr fr)"
  by pat_completeness auto
termination
proof (relation "measure (\<lambda>(ops, fr, i, j). 2 ^ 64 - unat j)")
  fix fr :: "'a frame" and j :: size_t
  assume "j < cols (arg_B fr)"
  then have "unat (j + 1) = Suc (unat j)" by unat_arith
  moreover have "unat (j + 1) < 2 ^ 64" using unsigned_less [of "j + 1"] by simp
  ultimately show "((ops, fr', i, j + 1), (ops, fr, i, j))
      \<in> measure (\<lambda>(ops, fr, i, j). 2 ^ 64 - unat j)"
    for ops :: "('a, 'p, 'd) arith" and i :: size_t and fr' :: "'a frame"
    by simp
qed simp

declare loop_j.simps [simp del]

text \<open>
  \<^verbatim>\<open>for (size_t i = 0; i < A.rows(); ++i) { ... loop over j ... }\<close>
\<close>

function loop_i :: "('a, 'p, 'd) arith \<Rightarrow> 'a frame \<Rightarrow> size_t \<Rightarrow> error + 'a frame" where
  "loop_i ops fr i =
     (if i < rows (arg_A fr) then
        (case loop_j ops fr i 0 of
           Inl e \<Rightarrow> Inl e
         | Inr fr' \<Rightarrow> loop_i ops fr' (i + 1))
      else Inr fr)"
  by pat_completeness auto
termination
proof (relation "measure (\<lambda>(ops, fr, i). 2 ^ 64 - unat i)")
  fix fr :: "'a frame" and i :: size_t
  assume "i < rows (arg_A fr)"
  then have "unat (i + 1) = Suc (unat i)" by unat_arith
  moreover have "unat (i + 1) < 2 ^ 64" using unsigned_less [of "i + 1"] by simp
  ultimately show "((ops, fr', i + 1), (ops, fr, i))
      \<in> measure (\<lambda>(ops, fr, i). 2 ^ 64 - unat i)"
    for ops :: "('a, 'p, 'd) arith" and fr' :: "'a frame"
    by simp
qed simp

declare loop_i.simps [simp del]

text \<open>
  \<^verbatim>\<open>if (A.cols() != B.rows())
      throw std::runtime_error("Matrix dimensions are not compatible for multiplication");
  Matrix<T> C(A.rows(), B.cols());
  ... loop over i ...
  return C;\<close>
  \<open>multiply_frame\<close> is the call with the final state of all three objects,
  \<open>multiply\<close> the value it returns.
\<close>

definition multiply_frame :: "('a, 'p, 'd) arith \<Rightarrow> 'a Matrix \<Rightarrow> 'a Matrix \<Rightarrow> error + 'a frame" where
  "multiply_frame ops A B =
     (if cols A \<noteq> rows B
      then Inl (Runtime_error ''Matrix dimensions are not compatible for multiplication'')
      else (case construct ops (rows A) (cols B) of
              Inl e \<Rightarrow> Inl e
            | Inr C \<Rightarrow> loop_i ops \<lparr>arg_A = A, arg_B = B, local_C = C\<rparr> 0))"

definition multiply :: "('a, 'p, 'd) arith \<Rightarrow> 'a Matrix \<Rightarrow> 'a Matrix \<Rightarrow> error + 'a Matrix" where
  "multiply ops A B =
     (case multiply_frame ops A B of
        Inl e \<Rightarrow> Inl e
      | Inr fr \<Rightarrow> Inr (local_C fr))"

subsection \<open>The vocabulary of the specification\<close>

text \<open>
  The specification names the failures; the header throws \<^verbatim>\<open>std::runtime_error\<close>
  with these two messages.
\<close>

definition InconsistentShape :: error where
  "InconsistentShape = Runtime_error ''Inconsistent row length''"

definition DimensionMismatch :: error where
  "DimensionMismatch =
     Runtime_error ''Matrix dimensions are not compatible for multiplication''"

text \<open>
  The data model of the specification: the buffer holds \<open>rows * cols\<close> elements,
  the product taken in the natural numbers, and a vector's size is a
  \<^verbatim>\<open>size_t\<close>.
\<close>

definition well_formed :: "'a Matrix \<Rightarrow> bool" where
  "well_formed M \<longleftrightarrow>
     length (data_m M) = unat (rows M) * unat (cols M) \<and>
     unat (rows M) * unat (cols M) < 2 ^ 64"

text \<open>
  A nested literal the constructor can be given: the sizes it reports are
  \<^verbatim>\<open>size_t\<close> values, and the number of rows times the length of the first row
  is below \<open>2 ^ 64\<close>, as it is for equal rows that lie in memory.
\<close>

definition literal_fits :: "'a list list \<Rightarrow> bool" where
  "literal_fits values \<longleftrightarrow>
     length values < 2 ^ 64 \<and> (\<forall>row\<in>set values. length row < 2 ^ 64) \<and>
     length values * length (hd values) < 2 ^ 64"

text \<open>Row-major order: element \<open>(r, c)\<close> is at linear index \<open>r * cols + c\<close>.\<close>

definition entry :: "'a Matrix \<Rightarrow> nat \<Rightarrow> nat \<Rightarrow> 'a" where
  "entry M r c = data_m M ! (r * unat (cols M) + c)"

text \<open>
  The sum of the products \<open>A(i,k) * B(k,j)\<close> as the arithmetic \<open>ops\<close> has it:
  each product is taken on the elements and added to the accumulator, for \<open>k\<close>
  in the order of \<open>ks\<close>; the entry of the product is the conversion of the final
  accumulator. Either is \<open>None\<close> where an operation is undefined.
\<close>

fun accumulate ::
  "('a, 'p, 'd) arith \<Rightarrow> 'a Matrix \<Rightarrow> 'a Matrix \<Rightarrow> nat \<Rightarrow> nat \<Rightarrow> 'd \<Rightarrow> nat list \<Rightarrow> 'd option"
where
  "accumulate ops A B i j acc [] = Some acc"
| "accumulate ops A B i j acc (k # ks) =
     (case times_T ops (entry A i k) (entry B k j) of
        None \<Rightarrow> None
      | Some p \<Rightarrow> accumulate ops A B i j (plus_assign ops acc p) ks)"

definition product_entry ::
  "('a, 'p, 'd) arith \<Rightarrow> 'a Matrix \<Rightarrow> 'a Matrix \<Rightarrow> nat \<Rightarrow> nat \<Rightarrow> 'a option" where
  "product_entry ops A B i j =
     (case accumulate ops A B i j (zero_d ops) [0..<unat (cols A)] of
        None \<Rightarrow> None
      | Some acc \<Rightarrow> from_double ops acc)"

text \<open>
  The same sum in the integers, for \<^verbatim>\<open>long long\<close> elements, and the sum of the
  absolute values of its terms.
\<close>

definition dot :: "long_long Matrix \<Rightarrow> long_long Matrix \<Rightarrow> nat \<Rightarrow> nat \<Rightarrow> int" where
  "dot L R i j = (\<Sum>k<unat (cols L). sint (entry L i k) * sint (entry R k j))"

definition dot_abs :: "long_long Matrix \<Rightarrow> long_long Matrix \<Rightarrow> nat \<Rightarrow> nat \<Rightarrow> int" where
  "dot_abs L R i j = (\<Sum>k<unat (cols L). \<bar>sint (entry L i k)\<bar> * \<bar>sint (entry R k j)\<bar>)"

text \<open>The loop invariants of the product.\<close>

definition filled :: "('a, 'p, 'd) arith \<Rightarrow> 'a frame \<Rightarrow> nat \<Rightarrow> bool" where
  "filled ops fr L \<longleftrightarrow>
     (\<forall>l<L. product_entry ops (arg_A fr) (arg_B fr)
          (l div unat (cols (arg_B fr))) (l mod unat (cols (arg_B fr))) =
        Some (data_m (local_C fr) ! l))"

definition ready :: "'a frame \<Rightarrow> bool" where
  "ready fr \<longleftrightarrow>
     well_formed (arg_A fr) \<and> well_formed (arg_B fr) \<and> well_formed (local_C fr) \<and>
     cols (arg_A fr) = rows (arg_B fr) \<and>
     rows (local_C fr) = rows (arg_A fr) \<and> cols (local_C fr) = cols (arg_B fr)"

definition same_shape :: "'a Matrix \<Rightarrow> 'a Matrix \<Rightarrow> bool" where
  "same_shape M M' \<longleftrightarrow>
     rows M' = rows M \<and> cols M' = cols M \<and> length (data_m M') = length (data_m M)"

text \<open>The matrices of the examples, of \<^verbatim>\<open>long long\<close>.\<close>

definition A22 :: "long_long Matrix" where
  "A22 = \<lparr>rows_m = 2, cols_m = 2, data_m = [1, 2, 3, 4]\<rparr>"

definition B22 :: "long_long Matrix" where
  "B22 = \<lparr>rows_m = 2, cols_m = 2, data_m = [5, 6, 7, 8]\<rparr>"

definition A23 :: "long_long Matrix" where
  "A23 = \<lparr>rows_m = 2, cols_m = 3, data_m = [1, 2, 3, 4, 5, 6]\<rparr>"

definition P11 :: "long_long Matrix" where
  "P11 = \<lparr>rows_m = 1, cols_m = 1, data_m = [2 ^ 53 + 1]\<rparr>"

definition I11 :: "long_long Matrix" where
  "I11 = \<lparr>rows_m = 1, cols_m = 1, data_m = [1]\<rparr>"

definition Q11 :: "long_long Matrix" where
  "Q11 = \<lparr>rows_m = 1, cols_m = 1, data_m = [2 ^ 62]\<rparr>"

definition D11 :: "long_long Matrix" where
  "D11 = \<lparr>rows_m = 1, cols_m = 1, data_m = [2]\<rparr>"

definition tall31 :: "long_long Matrix" where
  "tall31 = \<lparr>rows_m = 2 ^ 31, cols_m = 0, data_m = []\<rparr>"

definition wide31 :: "long_long Matrix" where
  "wide31 = \<lparr>rows_m = 0, cols_m = 2 ^ 31, data_m = []\<rparr>"

definition tall :: "long_long Matrix" where
  "tall = \<lparr>rows_m = 2 ^ 32, cols_m = 0, data_m = []\<rparr>"

definition wide :: "long_long Matrix" where
  "wide = \<lparr>rows_m = 0, cols_m = 2 ^ 32, data_m = []\<rparr>"

definition huge :: "long_long Matrix" where
  "huge = \<lparr>rows_m = 2 ^ 32, cols_m = 2 ^ 32, data_m = []\<rparr>"

definition skew :: "long_long Matrix" where
  "skew = \<lparr>rows_m = 2 ^ 63 + 1, cols_m = 2, data_m = [0, 0]\<rparr>"

section \<open>Auxiliary facts\<close>

subsection \<open>Offsets\<close>

lemma size_t_succ: "k < n \<Longrightarrow> unat (k + 1) = Suc (unat k)" for k n :: size_t
  by unat_arith

lemma row_major_bound:
  fixes r c n m :: nat
  assumes "r < m" "c < n"
  shows "r * n + c < m * n"
proof -
  have "r * n + c < r * n + n" using assms by simp
  also have "\<dots> = Suc r * n" by simp
  also have "\<dots> \<le> m * n" using assms by (intro mult_le_mono1) simp
  finally show ?thesis .
qed

lemma offset_in_bounds:
  assumes "well_formed M" "r < rows M" "c < cols M"
  shows "offset M r c = unat r * unat (cols M) + unat c"
    and "offset M r c < length (data_m M)"
proof -
  have lt: "unat r * unat (cols M) + unat c < unat (rows M) * unat (cols M)"
    using assms by (intro row_major_bound) (simp_all add: word_less_nat_alt)
  with assms(1) have b: "unat r * unat (cols M) + unat c < 2 ^ 64"
    by (simp add: well_formed_def)
  then have "unat r * unat (cols M) < 2 ^ LENGTH(64)" by simp
  then have m: "unat (r * cols M) = unat r * unat (cols M)"
    by (simp only: unat_mult_lem)
  from b have "unat (r * cols M) + unat c < 2 ^ LENGTH(64)" by (simp add: m)
  then have "unat (r * cols M + c) = unat (r * cols M) + unat c"
    by (simp only: unat_add_lem)
  with m show o: "offset M r c = unat r * unat (cols M) + unat c"
    by (simp add: offset_def cols_def)
  from lt assms(1) show "offset M r c < length (data_m M)"
    by (simp add: o well_formed_def)
qed

lemma elem_at_entry:
  assumes "well_formed M" "r < rows M" "c < cols M"
  shows "elem_at M r c = Inr (entry M (unat r) (unat c))"
  using offset_in_bounds [OF assms] by (simp add: elem_at_def entry_def)

lemma elem_assign_in_bounds:
  assumes "well_formed M" "r < rows M" "c < cols M"
  shows "elem_assign M r c v =
     Inr (M\<lparr>data_m := (data_m M)[unat r * unat (cols M) + unat c := v]\<rparr>)"
  using offset_in_bounds [OF assms] by (simp add: elem_assign_def)

lemma size_t_bound: "unat w < 2 ^ 64" for w :: size_t
proof -
  have "unat w < 2 ^ LENGTH(64)" by (rule unsigned_less)
  then show ?thesis by simp
qed

lemma offset_mod:
  "offset M r c = (unat r * unat (cols M) + unat c) mod 2 ^ 64"
  by (simp add: offset_def cols_def unat_word_ariths mod_simps)

subsection \<open>What the loops leave alone, and how they fail\<close>

lemma elem_assign_same_shape:
  "elem_assign M r c v = Inr M' \<Longrightarrow> same_shape M M'"
  by (auto simp: elem_assign_def same_shape_def rows_def cols_def split: if_splits)

lemma same_shape_trans: "same_shape M M' \<Longrightarrow> same_shape M' M'' \<Longrightarrow> same_shape M M''"
  by (simp add: same_shape_def)

lemma loop_j_frame:
  "loop_j ops fr i j = Inr fr' \<Longrightarrow>
     arg_A fr' = arg_A fr \<and> arg_B fr' = arg_B fr \<and> same_shape (local_C fr) (local_C fr')"
proof (induction ops fr i j rule: loop_j.induct)
  case (1 ops fr i j)
  show ?case
  proof (cases "j < cols (arg_B fr)")
    case False
    with "1.prems" show ?thesis by (simp add: loop_j.simps same_shape_def)
  next
    case True
    from True "1.prems" obtain acc v C' where
      s: "loop_k ops fr i j 0 (zero_d ops) = Inr acc" and
      n: "from_double ops acc = Some v" and
      c: "elem_assign (local_C fr) i j v = Inr C'" and
      r: "loop_j ops (fr\<lparr>local_C := C'\<rparr>) i (j + 1) = Inr fr'"
      by (subst (asm) loop_j.simps) (auto split: sum.splits option.splits)
    from "1.IH" [OF True s n c r] elem_assign_same_shape [OF c] show ?thesis
      by (auto intro: same_shape_trans)
  qed
qed

lemma loop_i_frame:
  "loop_i ops fr i = Inr fr' \<Longrightarrow>
     arg_A fr' = arg_A fr \<and> arg_B fr' = arg_B fr \<and> same_shape (local_C fr) (local_C fr')"
proof (induction ops fr i rule: loop_i.induct)
  case (1 ops fr i)
  show ?case
  proof (cases "i < rows (arg_A fr)")
    case False
    with "1.prems" show ?thesis by (simp add: loop_i.simps same_shape_def)
  next
    case True
    from True "1.prems" obtain fr1 where
      j: "loop_j ops fr i 0 = Inr fr1" and
      r: "loop_i ops fr1 (i + 1) = Inr fr'"
      by (subst (asm) loop_i.simps) (auto split: sum.splits)
    from "1.IH" [OF True j r] loop_j_frame [OF j] show ?thesis
      by (auto intro: same_shape_trans)
  qed
qed

lemma elem_at_error: "elem_at M r c = Inl e \<Longrightarrow> e = Undefined_behaviour"
  by (auto simp: elem_at_def split: if_splits)

lemma elem_assign_error: "elem_assign M r c v = Inl e \<Longrightarrow> e = Undefined_behaviour"
  by (auto simp: elem_assign_def split: if_splits)

lemma loop_k_error: "loop_k ops fr i j k acc = Inl e \<Longrightarrow> e = Undefined_behaviour"
proof (induction ops fr i j k acc rule: loop_k.induct)
  case (1 ops fr i j k acc)
  from "1.prems" show ?case
    by (subst (asm) loop_k.simps)
      (auto split: if_splits sum.splits option.splits dest: elem_at_error "1.IH")
qed

lemma loop_j_error: "loop_j ops fr i j = Inl e \<Longrightarrow> e = Undefined_behaviour"
proof (induction ops fr i j rule: loop_j.induct)
  case (1 ops fr i j)
  from "1.prems" show ?case
    by (subst (asm) loop_j.simps)
      (auto split: if_splits sum.splits option.splits
        dest: loop_k_error elem_assign_error "1.IH")
qed

lemma loop_i_error: "loop_i ops fr i = Inl e \<Longrightarrow> e = Undefined_behaviour"
proof (induction ops fr i rule: loop_i.induct)
  case (1 ops fr i)
  from "1.prems" show ?case
    by (subst (asm) loop_i.simps)
      (auto split: if_splits sum.splits dest: loop_j_error "1.IH")
qed

subsection \<open>What the loops compute\<close>

lemma loop_k_accumulate:
  assumes "well_formed (arg_A fr)" "well_formed (arg_B fr)"
    and "cols (arg_A fr) = rows (arg_B fr)"
    and "i < rows (arg_A fr)" "j < cols (arg_B fr)"
  shows "loop_k ops fr i j k acc =
     (case accumulate ops (arg_A fr) (arg_B fr) (unat i) (unat j) acc
             [unat k..<unat (cols (arg_A fr))] of
        None \<Rightarrow> Inl Undefined_behaviour
      | Some s \<Rightarrow> Inr s)"
  using assms
proof (induction ops fr i j k acc rule: loop_k.induct)
  case (1 ops fr i j k acc)
  let ?A = "arg_A fr" and ?B = "arg_B fr"
  show ?case
  proof (cases "k < cols ?A")
    case False
    then have "unat (cols ?A) \<le> unat k" by (simp add: word_less_nat_alt)
    with False show ?thesis by (simp add: loop_k.simps)
  next
    case True
    let ?a = "entry ?A (unat i) (unat k)" and ?b = "entry ?B (unat k) (unat j)"
    have a: "elem_at ?A i k = Inr ?a"
      using "1.prems" True by (simp add: elem_at_entry)
    have b: "elem_at ?B k j = Inr ?b"
      using "1.prems" True by (simp add: elem_at_entry)
    have u: "[unat k..<unat (cols ?A)] = unat k # [unat (k + 1)..<unat (cols ?A)]"
      using True by (simp add: size_t_succ [OF True] word_less_nat_alt upt_conv_Cons)
    show ?thesis
    proof (cases "times_T ops ?a ?b")
      case None
      with True a b show ?thesis by (subst loop_k.simps) (simp add: u)
    next
      case (Some p)
      have "loop_k ops fr i j k acc = loop_k ops fr i j (k + 1) (plus_assign ops acc p)"
        using True a b Some by (subst loop_k.simps) simp
      also have "\<dots> =
          (case accumulate ops ?A ?B (unat i) (unat j) (plus_assign ops acc p)
                  [unat (k + 1)..<unat (cols ?A)] of
             None \<Rightarrow> Inl Undefined_behaviour
           | Some s \<Rightarrow> Inr s)"
        using "1.prems" by (intro "1.IH" [OF True a b Some])
      finally show ?thesis by (simp add: u Some)
    qed
  qed
qed

lemma ready_update:
  assumes "ready fr"
  shows "ready (fr\<lparr>local_C := (local_C fr)\<lparr>data_m := (data_m (local_C fr))[l := v]\<rparr>\<rparr>)"
  using assms unfolding ready_def well_formed_def rows_def cols_def by auto

lemma loop_j_filled:
  assumes "ready fr" "i < rows (arg_A fr)"
    and "filled ops fr (unat i * unat (cols (arg_B fr)) + unat j)"
    and "j \<le> cols (arg_B fr)"
    and "\<forall>j'<unat (cols (arg_B fr)). product_entry ops (arg_A fr) (arg_B fr) (unat i) j' \<noteq> None"
  shows "\<exists>fr'. loop_j ops fr i j = Inr fr' \<and> ready fr' \<and>
           arg_A fr' = arg_A fr \<and> arg_B fr' = arg_B fr \<and>
           filled ops fr' (unat i * unat (cols (arg_B fr)) + unat (cols (arg_B fr)))"
  using assms
proof (induction ops fr i j rule: loop_j.induct)
  case (1 ops fr i j)
  let ?A = "arg_A fr" and ?B = "arg_B fr" and ?C = "local_C fr"
  let ?p = "unat (cols ?B)"
  show ?case
  proof (cases "j < cols ?B")
    case False
    with "1.prems"(4) have "j = cols ?B" by simp
    with "1.prems" False show ?thesis by (simp add: loop_j.simps)
  next
    case True
    from "1.prems"(1) have wfA: "well_formed ?A" and wfB: "well_formed ?B"
      and wfC: "well_formed ?C" and ab: "cols ?A = rows ?B"
      and rC: "rows ?C = rows ?A" and cC: "cols ?C = cols ?B"
      by (simp_all add: ready_def)
    have jp: "unat j < ?p" using True by (simp add: word_less_nat_alt)
    with "1.prems"(5) obtain v where pe: "product_entry ops ?A ?B (unat i) (unat j) = Some v"
      by auto
    then obtain acc where
      ac: "accumulate ops ?A ?B (unat i) (unat j) (zero_d ops) [0..<unat (cols ?A)] = Some acc"
      and fd: "from_double ops acc = Some v"
      by (auto simp: product_entry_def split: option.splits)
    let ?l = "unat i * ?p + unat j"
    let ?C' = "?C\<lparr>data_m := (data_m ?C)[?l := v]\<rparr>"
    let ?fr' = "fr\<lparr>local_C := ?C'\<rparr>"
    have k: "loop_k ops fr i j 0 (zero_d ops) = Inr acc"
      using loop_k_accumulate [OF wfA wfB ab "1.prems"(2) True, of ops 0 "zero_d ops"] ac
      by simp
    have c: "elem_assign ?C i j v = Inr ?C'"
      using elem_assign_in_bounds [OF wfC, of i j] "1.prems"(2) True rC cC by simp
    have unfold: "loop_j ops fr i j = loop_j ops ?fr' i (j + 1)"
      using True k fd c by (subst loop_j.simps) simp
    have ready': "ready ?fr'"
      using "1.prems"(1) by (rule ready_update)
    have lC: "?l < length (data_m ?C)"
      using offset_in_bounds(2) [OF wfC, of i j] offset_in_bounds(1) [OF wfC, of i j]
        "1.prems"(2) True rC cC by simp
    have filled': "filled ops ?fr' (unat i * ?p + unat (j + 1))"
      unfolding filled_def
    proof (intro allI impI)
      fix l assume "l < unat i * ?p + unat (j + 1)"
      then have "l < ?l \<or> l = ?l" by (auto simp: size_t_succ [OF True])
      then show "product_entry ops (arg_A ?fr') (arg_B ?fr')
            (l div unat (cols (arg_B ?fr'))) (l mod unat (cols (arg_B ?fr'))) =
          Some (data_m (local_C ?fr') ! l)"
      proof
        assume "l < ?l"
        with "1.prems"(3) show ?thesis by (simp add: filled_def)
      next
        assume l: "l = ?l"
        with jp have "l div ?p = unat i" "l mod ?p = unat j" by simp_all
        with l lC pe show ?thesis by simp
      qed
    qed
    have le: "j + 1 \<le> cols (arg_B ?fr')" using True by (simp add: inc_le)
    have df: "\<forall>j'<unat (cols (arg_B ?fr')).
        product_entry ops (arg_A ?fr') (arg_B ?fr') (unat i) j' \<noteq> None"
      using "1.prems"(5) by simp
    from "1.IH" [OF True k fd c ready' _ _ le df] "1.prems"(2) filled'
    obtain fr' where "loop_j ops ?fr' i (j + 1) = Inr fr'" "ready fr'"
      "arg_A fr' = ?A" "arg_B fr' = ?B" "filled ops fr' (unat i * ?p + ?p)"
      by auto
    with unfold show ?thesis by simp
  qed
qed

lemma loop_i_filled:
  assumes "ready fr" "filled ops fr (unat i * unat (cols (arg_B fr)))"
    and "i \<le> rows (arg_A fr)"
    and "\<forall>i'<unat (rows (arg_A fr)). \<forall>j'<unat (cols (arg_B fr)).
           product_entry ops (arg_A fr) (arg_B fr) i' j' \<noteq> None"
  shows "\<exists>fr'. loop_i ops fr i = Inr fr' \<and> ready fr' \<and>
           arg_A fr' = arg_A fr \<and> arg_B fr' = arg_B fr \<and>
           filled ops fr' (unat (rows (arg_A fr)) * unat (cols (arg_B fr)))"
  using assms
proof (induction ops fr i rule: loop_i.induct)
  case (1 ops fr i)
  let ?A = "arg_A fr" and ?B = "arg_B fr"
  let ?p = "unat (cols ?B)"
  show ?case
  proof (cases "i < rows ?A")
    case False
    with "1.prems"(3) have "i = rows ?A" by simp
    with "1.prems" False show ?thesis by (simp add: loop_i.simps)
  next
    case True
    then have "unat i < unat (rows ?A)" by (simp add: word_less_nat_alt)
    with "1.prems"(4) have row: "\<forall>j'<?p. product_entry ops ?A ?B (unat i) j' \<noteq> None"
      by simp
    from loop_j_filled [OF "1.prems"(1) True _ _ row, of 0] "1.prems"(2)
    obtain fr1 where j: "loop_j ops fr i 0 = Inr fr1" and r1: "ready fr1"
      and A1: "arg_A fr1 = ?A" and B1: "arg_B fr1 = ?B"
      and f1: "filled ops fr1 (unat i * ?p + ?p)"
      by auto
    have unfold: "loop_i ops fr i = loop_i ops fr1 (i + 1)"
      using True j by (subst loop_i.simps) simp
    have "unat (i + 1) * ?p = unat i * ?p + ?p"
      unfolding size_t_succ [OF True] by simp
    with f1 have f1': "filled ops fr1 (unat (i + 1) * unat (cols (arg_B fr1)))"
      by (simp only: B1)
    have le: "i + 1 \<le> rows (arg_A fr1)" using True by (simp add: inc_le A1)
    have df: "\<forall>i'<unat (rows (arg_A fr1)). \<forall>j'<unat (cols (arg_B fr1)).
        product_entry ops (arg_A fr1) (arg_B fr1) i' j' \<noteq> None"
      using "1.prems"(4) by (simp only: A1 B1)
    from "1.IH" [OF True j r1 f1' le df]
    obtain fr' where "loop_i ops fr1 (i + 1) = Inr fr'" "ready fr'"
      "arg_A fr' = ?A" "arg_B fr' = ?B" "filled ops fr' (unat (rows ?A) * ?p)"
      by (auto simp: A1 B1)
    with unfold show ?thesis by simp
  qed
qed

lemma construct_fits:
  assumes "unat r * unat c \<le> unat (max_size ops)"
  shows "construct ops r c =
     Inr \<lparr>rows_m = r, cols_m = c, data_m = replicate (unat r * unat c) (zero_T ops)\<rparr>"
proof -
  have "unat r * unat c < 2 ^ LENGTH(64)"
    using assms size_t_bound [of "max_size ops"] by simp
  then have u: "unat (r * c) = unat r * unat c" by (simp only: unat_mult_lem)
  with assms have "\<not> max_size ops < r * c" by (simp add: word_less_nat_alt)
  then show ?thesis by (simp add: construct_def u)
qed

lemma multiply_frame_closed_form:
  assumes wfA: "well_formed A" and wfB: "well_formed B"
    and ab: "cols A = rows B"
    and fits: "unat (rows A) * unat (cols B) \<le> unat (max_size ops)"
    and df: "\<forall>i<unat (rows A). \<forall>j<unat (cols B). product_entry ops A B i j \<noteq> None"
  shows "\<exists>fr. multiply_frame ops A B = Inr fr \<and> arg_A fr = A \<and> arg_B fr = B \<and>
           rows (local_C fr) = rows A \<and> cols (local_C fr) = cols B \<and>
           well_formed (local_C fr) \<and>
           (\<forall>i j. i < rows A \<longrightarrow> j < cols B \<longrightarrow>
              (\<exists>v. product_entry ops A B (unat i) (unat j) = Some v \<and>
                   elem_at (local_C fr) i j = Inr v))"
proof -
  let ?C0 = "\<lparr>rows_m = rows A, cols_m = cols B,
      data_m = replicate (unat (rows A) * unat (cols B)) (zero_T ops)\<rparr>"
  let ?fr0 = "\<lparr>arg_A = A, arg_B = B, local_C = ?C0\<rparr>"
  let ?p = "unat (cols B)"
  have lt: "unat (rows A) * unat (cols B) < 2 ^ 64"
    using fits size_t_bound [of "max_size ops"] by simp
  have c0: "construct ops (rows A) (cols B) = Inr ?C0"
    using fits by (rule construct_fits)
  have wfC0: "well_formed ?C0"
    using lt by (simp add: well_formed_def rows_def cols_def)
  have r0: "ready ?fr0"
    using wfA wfB wfC0 ab by (simp add: ready_def) (simp add: rows_def cols_def)
  have f0: "filled ops ?fr0 (unat (0 :: size_t) * unat (cols (arg_B ?fr0)))"
    by (simp add: filled_def)
  have d0: "\<forall>i<unat (rows (arg_A ?fr0)). \<forall>j<unat (cols (arg_B ?fr0)).
      product_entry ops (arg_A ?fr0) (arg_B ?fr0) i j \<noteq> None"
    using df by simp
  from loop_i_filled [OF r0 f0 _ d0]
  obtain fr where run: "loop_i ops ?fr0 0 = Inr fr" and rdy: "ready fr"
    and A: "arg_A fr = A" and B: "arg_B fr = B"
    and fl: "filled ops fr (unat (rows A) * ?p)"
    by auto
  from rdy have wfC: "well_formed (local_C fr)" and rC: "rows (local_C fr) = rows A"
    and cC: "cols (local_C fr) = cols B"
    by (simp_all add: ready_def A B)
  have m: "multiply_frame ops A B = Inr fr"
    using ab run c0 by (simp add: multiply_frame_def)
  have el: "\<exists>v. product_entry ops A B (unat i) (unat j) = Some v \<and>
      elem_at (local_C fr) i j = Inr v"
    if i: "i < rows A" and j: "j < cols B" for i j
  proof -
    let ?l = "unat i * ?p + unat j"
    from j have jp: "unat j < ?p" by (simp add: word_less_nat_alt)
    from i have "unat i < unat (rows A)" by (simp add: word_less_nat_alt)
    then have "?l < unat (rows A) * ?p" using jp by (rule row_major_bound)
    with fl have "product_entry ops A B (?l div ?p) (?l mod ?p) = Some (data_m (local_C fr) ! ?l)"
      unfolding filled_def A B by blast
    with jp have "product_entry ops A B (unat i) (unat j) = Some (data_m (local_C fr) ! ?l)"
      by simp
    moreover have "elem_at (local_C fr) i j = Inr (entry (local_C fr) (unat i) (unat j))"
      using wfC i j rC cC by (simp add: elem_at_entry)
    ultimately show ?thesis by (simp add: entry_def cC)
  qed
  from m A B rC cC wfC el show ?thesis by blast
qed

subsection \<open>The arithmetic of \<^verbatim>\<open>long long\<close>\<close>

lemma bit_length_le: "n < 2 ^ k \<Longrightarrow> bit_length n \<le> k"
proof (induction k arbitrary: n)
  case 0
  then show ?case by (simp add: bit_length.simps)
next
  case (Suc k)
  show ?case
  proof (cases "n = 0")
    case True
    then show ?thesis by (simp add: bit_length.simps)
  next
    case False
    from Suc.prems have "n div 2 < 2 ^ k" by simp
    then have "bit_length (n div 2) \<le> k" by (rule Suc.IH)
    with False show ?thesis by (subst bit_length.simps) simp
  qed
qed

lemma bit_length_eq: "2 ^ k \<le> n \<Longrightarrow> n < 2 ^ Suc k \<Longrightarrow> bit_length n = Suc k"
proof (induction k arbitrary: n)
  case 0
  then have "n = 1" by simp
  then show ?case by (simp add: bit_length.simps)
next
  case (Suc k)
  from Suc.prems have "2 ^ k \<le> n div 2" "n div 2 < 2 ^ Suc k" by simp_all
  then have "bit_length (n div 2) = Suc k" by (rule Suc.IH)
  moreover from Suc.prems have "n \<noteq> 0" by auto
  ultimately show ?case by (subst bit_length.simps) simp
qed

lemma to_double_small: "\<bar>x\<bar> < 2 ^ 53 \<Longrightarrow> to_double x = x"
proof -
  assume "\<bar>x\<bar> < 2 ^ 53"
  then have "nat \<bar>x\<bar> < 2 ^ 53" by simp
  then have "bit_length (nat \<bar>x\<bar>) \<le> 53" by (rule bit_length_le)
  then have "bit_length (nat \<bar>x\<bar>) - 53 = 0" by simp
  then have "to_double x = sgn x * \<bar>x\<bar>"
    by (simp add: to_double_def round_nearest_even_def)
  then show ?thesis by (simp add: mult_sgn_abs)
qed

lemma to_double_tie: "to_double (2 ^ 53 + 1) = 2 ^ 53"
proof -
  have "bit_length (nat \<bar>2 ^ 53 + 1 :: int\<bar>) = Suc 53"
    by (rule bit_length_eq) simp_all
  then show ?thesis
    by (simp add: to_double_def round_nearest_even_def)
qed

lemma long_long_fields:
  "zero_T long_long_arith = 0" "value_init long_long_arith = 0" "zero_d long_long_arith = 0"
  "times_T long_long_arith x y =
     (if - (2 ^ 63) \<le> sint x * sint y \<and> sint x * sint y < 2 ^ 63 then Some (x * y) else None)"
  "plus_assign long_long_arith acc x = to_double (acc + to_double (sint x))"
  "from_double long_long_arith d =
     (if - (2 ^ 63) \<le> d \<and> d < 2 ^ 63 then Some (word_of_int d) else None)"
  "max_size long_long_arith = 2 ^ 60 - 1"
  by (simp_all add: long_long_arith_def)

lemma to_double_two_53: "to_double (2 ^ 53) = 2 ^ 53"
proof -
  have "bit_length (nat \<bar>2 ^ 53 :: int\<bar>) = Suc 53"
    by (rule bit_length_eq) simp_all
  then show ?thesis
    by (simp add: to_double_def round_nearest_even_def)
qed

subsection \<open>The examples\<close>

lemma list_update_Cons_numeral:
  "(x # xs)[numeral v := y] = x # xs[numeral v - 1 := y]"
  by (simp add: numeral_eq_Suc)

lemma replicate_numeral:
  "replicate (numeral v) x = x # replicate (numeral v - 1) x"
  by (simp add: numeral_eq_Suc)

lemma A22_facts:
  "well_formed A22" "well_formed B22" "cols A22 = rows B22"
  "unat (rows A22) * unat (cols B22) \<le> unat (max_size long_long_arith)"
  by (simp_all add: well_formed_def A22_def B22_def rows_def cols_def long_long_fields)

lemma A22_entries:
  "product_entry long_long_arith A22 B22 0 0 = Some 19"
  "product_entry long_long_arith A22 B22 0 (Suc 0) = Some 22"
  "product_entry long_long_arith A22 B22 (Suc 0) 0 = Some 43"
  "product_entry long_long_arith A22 B22 (Suc 0) (Suc 0) = Some 50"
proof -
  have u: "[0..<unat (cols A22)] = [0, Suc 0]"
    by (simp add: A22_def cols_def upt_rec)
  have e: "entry A22 0 0 = 1" "entry A22 0 (Suc 0) = 2" "entry A22 (Suc 0) 0 = 3"
    "entry A22 (Suc 0) (Suc 0) = 4" "entry B22 0 0 = 5" "entry B22 0 (Suc 0) = 6"
    "entry B22 (Suc 0) 0 = 7" "entry B22 (Suc 0) (Suc 0) = 8"
    by (simp_all add: entry_def A22_def B22_def cols_def)
  show "product_entry long_long_arith A22 B22 0 0 = Some 19"
    "product_entry long_long_arith A22 B22 0 (Suc 0) = Some 22"
    "product_entry long_long_arith A22 B22 (Suc 0) 0 = Some 43"
    "product_entry long_long_arith A22 B22 (Suc 0) (Suc 0) = Some 50"
    by (simp_all add: product_entry_def u e long_long_fields to_double_small)
qed

lemma A22_defined:
  "\<forall>i<unat (rows A22). \<forall>j<unat (cols B22). product_entry long_long_arith A22 B22 i j \<noteq> None"
proof -
  have "unat (rows A22) = 2" "unat (cols B22) = 2"
    by (simp_all add: A22_def B22_def rows_def cols_def)
  then show ?thesis
    by (auto simp: less_2_cases_iff A22_entries)
qed

lemma product_22:
  "multiply_frame long_long_arith A22 B22 =
     Inr \<lparr>arg_A = A22, arg_B = B22,
          local_C = \<lparr>rows_m = 2, cols_m = 2, data_m = [19, 22, 43, 50]\<rparr>\<rparr>"
  unfolding multiply_frame_def construct_def
  by (simp add: loop_i.simps loop_j.simps loop_k.simps elem_at_def elem_assign_def
      offset_def rows_def cols_def A22_def B22_def long_long_fields to_double_small
      list_update_Cons_numeral replicate_numeral)

lemma A22_dot_abs_values:
  "dot_abs A22 B22 0 0 = 19" "dot_abs A22 B22 0 (Suc 0) = 22"
  "dot_abs A22 B22 (Suc 0) 0 = 43" "dot_abs A22 B22 (Suc 0) (Suc 0) = 50"
proof -
  have u: "unat (cols A22) = Suc (Suc 0)"
    by (simp add: A22_def cols_def)
  have e: "entry A22 0 0 = 1" "entry A22 0 (Suc 0) = 2" "entry A22 (Suc 0) 0 = 3"
    "entry A22 (Suc 0) (Suc 0) = 4" "entry B22 0 0 = 5" "entry B22 0 (Suc 0) = 6"
    "entry B22 (Suc 0) 0 = 7" "entry B22 (Suc 0) (Suc 0) = 8"
    by (simp_all add: entry_def A22_def B22_def cols_def)
  show "dot_abs A22 B22 0 0 = 19" "dot_abs A22 B22 0 (Suc 0) = 22"
    "dot_abs A22 B22 (Suc 0) 0 = 43" "dot_abs A22 B22 (Suc 0) (Suc 0) = 50"
    by (simp_all add: dot_abs_def u lessThan_Suc e)
qed

lemma multiply_wraps:
  "cols tall = rows wide \<and> well_formed tall \<and> well_formed wide \<and>
   construct long_long_arith (rows tall) (cols wide) = Inr huge \<and>
   multiply long_long_arith tall wide = Inl Undefined_behaviour"
  unfolding multiply_def multiply_frame_def construct_def
  by (simp add: loop_i.simps loop_j.simps loop_k.simps elem_assign_def offset_def
      rows_def cols_def tall_def wide_def huge_def well_formed_def long_long_fields)

subsection \<open>Assignment, then read\<close>

lemma well_formed_assign:
  "well_formed M \<Longrightarrow> well_formed (M\<lparr>data_m := (data_m M)[l := v]\<rparr>)"
  by (simp add: well_formed_def rows_def cols_def)

lemma row_major_inj:
  fixes r c r' c' p :: nat
  assumes "r * p + c = r' * p + c'" "c < p" "c' < p"
  shows "r = r' \<and> c = c'"
proof -
  from assms(2) have "(r * p + c) div p = r" "(r * p + c) mod p = c" by simp_all
  moreover from assms(3) have "(r' * p + c') div p = r'" "(r' * p + c') mod p = c'" by simp_all
  ultimately show ?thesis using assms(1) by simp
qed

subsection \<open>The loops of the list constructor\<close>

lemma unat_of_nat_size_t: "n < 2 ^ 64 \<Longrightarrow> unat (of_nat n :: size_t) = n"
  by (simp add: unat_of_nat)

lemma fill_row_run:
  assumes "unat i = length pre" "length row \<le> length rest"
    and "length pre + length rest < 2 ^ 64"
  shows "\<exists>i'. fill_row row (pre @ rest, i) = Inr (pre @ row @ drop (length row) rest, i') \<and>
           unat i' = length pre + length row"
  using assms
proof (induction row arbitrary: pre rest i)
  case Nil
  then show ?case by simp
next
  case (Cons v vs)
  from Cons.prems(2) obtain x xs where rest: "rest = x # xs" by (cases rest) auto
  have "unat i + unat (1 :: size_t) < 2 ^ LENGTH(64)"
    using Cons.prems(1,3) rest by simp
  then have "unat (i + 1) = unat i + unat (1 :: size_t)" by (simp only: unat_add_lem)
  then have i1: "unat (i + 1) = length (pre @ [v])" using Cons.prems(1) by simp
  from Cons.prems(2,3) rest have "length vs \<le> length xs"
    "length (pre @ [v]) + length xs < 2 ^ 64" by simp_all
  from Cons.IH [OF i1 this] obtain i' where
    "fill_row vs ((pre @ [v]) @ xs, i + 1) = Inr ((pre @ [v]) @ vs @ drop (length vs) xs, i')"
    "unat i' = length (pre @ [v]) + length vs"
    by blast
  then show ?case using Cons.prems(1) rest by (simp add: list_update_append)
qed

lemma fill_rows_run:
  assumes "unat i = length pre" "length rws * cn \<le> length rest"
    and "length pre + length rest < 2 ^ 64" "cn < 2 ^ 64"
    and "\<forall>row\<in>set rws. length row < 2 ^ 64"
  shows "((\<forall>row\<in>set rws. length row = cn) \<longrightarrow>
            (\<exists>i'. fill_rows (of_nat cn) rws (pre @ rest, i) =
                Inr (pre @ concat rws @ drop (length rws * cn) rest, i'))) \<and>
         (\<not> (\<forall>row\<in>set rws. length row = cn) \<longrightarrow>
            fill_rows (of_nat cn) rws (pre @ rest, i) = Inl InconsistentShape)"
  using assms
proof (induction rws arbitrary: pre rest i)
  case Nil
  then show ?case by simp
next
  case (Cons row rws)
  show ?case
  proof (cases "length row = cn")
    case False
    from Cons.prems(4,5) have "unat (of_nat (length row) :: size_t) = length row"
      "unat (of_nat cn :: size_t) = cn"
      by (simp_all add: unat_of_nat_size_t)
    with False have "(of_nat (length row) :: size_t) \<noteq> of_nat cn" by metis
    with False show ?thesis by (simp add: InconsistentShape_def)
  next
    case True
    from Cons.prems(2) True have le: "length row \<le> length rest" by simp
    from fill_row_run [OF Cons.prems(1) le Cons.prems(3)] obtain i' where
      r: "fill_row row (pre @ rest, i) = Inr (pre @ row @ drop (length row) rest, i')"
      and i': "unat i' = length (pre @ row)"
      by auto
    have le': "length rws * cn \<le> length (drop (length row) rest)"
      using Cons.prems(2) True by simp
    have b: "length (pre @ row) + length (drop (length row) rest) < 2 ^ 64"
      using Cons.prems(3) le by simp
    have s: "\<forall>row\<in>set rws. length row < 2 ^ 64" using Cons.prems(5) by simp
    from Cons.IH [OF i' le' b Cons.prems(4) s] r True show ?thesis
      by (simp add: add.commute)
  qed
qed

lemma length_concat_rows:
  "\<forall>row\<in>set xss. length row = n \<Longrightarrow> length (concat xss) = length xss * n"
  by (induction xss) simp_all

lemma nth_concat_rows:
  "\<forall>row\<in>set xss. length row = n \<Longrightarrow> r < length xss \<Longrightarrow> c < n \<Longrightarrow>
     concat xss ! (r * n + c) = xss ! r ! c"
proof (induction xss arbitrary: r)
  case Nil
  then show ?case by simp
next
  case (Cons xs xss)
  show ?case
  proof (cases r)
    case 0
    with Cons.prems show ?thesis by (simp add: nth_append)
  next
    case (Suc r')
    with Cons.prems have "concat xss ! (r' * n + c) = xss ! r' ! c"
      by (intro Cons.IH) simp_all
    with Suc Cons.prems show ?thesis by (simp add: nth_append add.assoc)
  qed
qed

lemma assign_then_read_well_formed:
  assumes wf: "well_formed M" and r: "r < rows M" and c: "c < cols M"
  shows "\<exists>M'. elem_assign M r c v = Inr M' \<and> elem_at M' r c = Inr v \<and>
           (\<forall>r' c'. r' < rows M \<longrightarrow> c' < cols M \<longrightarrow> (r', c') \<noteq> (r, c) \<longrightarrow>
              elem_at M' r' c' = elem_at M r' c')"
proof -
  let ?p = "unat (cols M)"
  let ?l = "unat r * ?p + unat c"
  let ?M' = "M\<lparr>data_m := (data_m M)[?l := v]\<rparr>"
  have a: "elem_assign M r c v = Inr ?M'"
    using wf r c by (rule elem_assign_in_bounds)
  have wf': "well_formed ?M'" using wf by (rule well_formed_assign)
  have dims: "rows ?M' = rows M" "cols ?M' = cols M"
    by (simp_all add: rows_def cols_def)
  have l: "?l < length (data_m M)"
    using offset_in_bounds [OF wf r c] by simp
  have "elem_at ?M' r c = Inr (entry ?M' (unat r) (unat c))"
    using wf' r c by (intro elem_at_entry) (simp_all add: dims)
  with l have same: "elem_at ?M' r c = Inr v"
    by (simp add: entry_def dims)
  have other: "elem_at ?M' r' c' = elem_at M r' c'"
    if r': "r' < rows M" and c': "c' < cols M" and ne: "(r', c') \<noteq> (r, c)" for r' c'
  proof -
    let ?l' = "unat r' * ?p + unat c'"
    have "?l' \<noteq> ?l"
    proof
      assume "?l' = ?l"
      moreover from c c' have "unat c < ?p" "unat c' < ?p" by (simp_all add: word_less_nat_alt)
      ultimately have "unat r' = unat r \<and> unat c' = unat c" by (intro row_major_inj)
      then have "r' = r \<and> c' = c" by (simp add: word_unat_eq_iff)
      with ne show False by simp
    qed
    moreover have "elem_at ?M' r' c' = Inr (entry ?M' (unat r') (unat c'))"
      using wf' r' c' by (intro elem_at_entry) (simp_all add: dims)
    moreover have "elem_at M r' c' = Inr (entry M (unat r') (unat c'))"
      using wf r' c' by (rule elem_at_entry)
    ultimately show ?thesis by (simp add: entry_def dims)
  qed
  from a same other show ?thesis by blast
qed

subsection \<open>Construction with dimensions\<close>

lemma construct_zero_filled:
  assumes "unat r * unat c \<le> unat (max_size ops)"
  shows "\<exists>M. construct ops r c = Inr M \<and> rows M = r \<and> cols M = c \<and> well_formed M \<and>
           (\<forall>i j. i < r \<longrightarrow> j < c \<longrightarrow> elem_at M i j = Inr (zero_T ops))"
proof -
  let ?M = "\<lparr>rows_m = r, cols_m = c, data_m = replicate (unat r * unat c) (zero_T ops)\<rparr>"
  have lt: "unat r * unat c < 2 ^ 64"
    using assms size_t_bound [of "max_size ops"] by simp
  have wf: "well_formed ?M"
    using lt by (simp add: well_formed_def rows_def cols_def)
  have dims: "rows ?M = r" "cols ?M = c" by (simp_all add: rows_def cols_def)
  have "elem_at ?M i j = Inr (zero_T ops)" if i: "i < r" and j: "j < c" for i j
  proof -
    have "offset ?M i j < length (data_m ?M)"
      using wf i j by (intro offset_in_bounds(2)) (simp_all add: dims)
    then show ?thesis by (simp add: elem_at_def)
  qed
  with dims wf construct_fits [OF assms] show ?thesis by blast
qed

subsection \<open>Sums of \<^verbatim>\<open>long long\<close> that no step rounds\<close>

lemma small_in_range:
  fixes x :: int
  assumes "\<bar>x\<bar> < 2 ^ 53"
  shows "- (2 ^ 63) \<le> x" "x < 2 ^ 63"
  using assms by simp_all

lemma sint_word_of_int_small:
  "- (2 ^ 63) \<le> x \<Longrightarrow> x < 2 ^ 63 \<Longrightarrow> sint (word_of_int x :: long_long) = x"
  by (simp add: sint_sbintrunc' signed_take_bit_int_eq_self)

lemma accumulate_long_long_exact:
  assumes "\<bar>acc\<bar> + (\<Sum>k\<leftarrow>ks. \<bar>sint (entry A i k)\<bar> * \<bar>sint (entry B k j)\<bar>) < 2 ^ 53"
  shows "accumulate long_long_arith A B i j acc ks =
     Some (acc + (\<Sum>k\<leftarrow>ks. sint (entry A i k) * sint (entry B k j)))"
  using assms
proof (induction ks arbitrary: acc)
  case Nil
  then show ?case by simp
next
  case (Cons k ks)
  let ?a = "entry A i k" and ?b = "entry B k j"
  let ?x = "sint ?a * sint ?b"
  let ?rest = "\<Sum>k\<leftarrow>ks. \<bar>sint (entry A i k)\<bar> * \<bar>sint (entry B k j)\<bar>"
  have nn: "0 \<le> ?rest" by (rule sum_list_nonneg) auto
  from Cons.prems have b: "\<bar>acc\<bar> + \<bar>?x\<bar> + ?rest < 2 ^ 53" by (simp add: abs_mult)
  with nn have x: "\<bar>?x\<bar> < 2 ^ 53" and ax: "\<bar>acc + ?x\<bar> < 2 ^ 53" by linarith+
  from x have r: "- (2 ^ 63) \<le> ?x" "?x < 2 ^ 63" by (rule small_in_range)+
  then have s: "sint (?a * ?b) = ?x"
    by (simp add: sint_word_ariths signed_take_bit_int_eq_self)
  have p: "plus_assign long_long_arith acc (?a * ?b) = acc + ?x"
    using x ax by (simp add: long_long_fields s to_double_small)
  from b have "\<bar>acc + ?x\<bar> + ?rest < 2 ^ 53" by linarith
  from Cons.IH [OF this] r p show ?case
    by (simp add: long_long_fields add.assoc)
qed

lemma product_entry_long_long_exact:
  assumes "(\<Sum>k<unat (cols A). \<bar>sint (entry A i k)\<bar> * \<bar>sint (entry B k j)\<bar>) < 2 ^ 53"
  shows "\<exists>v. product_entry long_long_arith A B i j = Some v \<and>
           sint v = (\<Sum>k<unat (cols A). sint (entry A i k) * sint (entry B k j))"
proof -
  let ?n = "unat (cols A)"
  let ?S = "\<Sum>k<?n. sint (entry A i k) * sint (entry B k j)"
  have l: "(\<Sum>k\<leftarrow>[0..<?n]. \<bar>sint (entry A i k)\<bar> * \<bar>sint (entry B k j)\<bar>)
      = (\<Sum>k<?n. \<bar>sint (entry A i k)\<bar> * \<bar>sint (entry B k j)\<bar>)"
    and l': "(\<Sum>k\<leftarrow>[0..<?n]. sint (entry A i k) * sint (entry B k j)) = ?S"
    by (simp_all add: interv_sum_list_conv_sum_set_nat atLeast0LessThan)
  from assms have "\<bar>0 :: int\<bar> +
      (\<Sum>k\<leftarrow>[0..<?n]. \<bar>sint (entry A i k)\<bar> * \<bar>sint (entry B k j)\<bar>) < 2 ^ 53"
    unfolding l by simp
  from accumulate_long_long_exact [OF this]
  have acc: "accumulate long_long_arith A B i j 0 [0..<?n] = Some ?S"
    by (simp only: l') simp
  have "\<bar>?S\<bar> \<le> (\<Sum>k<?n. \<bar>sint (entry A i k) * sint (entry B k j)\<bar>)"
    by (rule sum_abs)
  with assms have S: "\<bar>?S\<bar> < 2 ^ 53" by (simp add: abs_mult)
  then have r: "- (2 ^ 63) \<le> ?S" "?S < 2 ^ 63" by (rule small_in_range)+
  then have "sint (word_of_int ?S :: long_long) = ?S"
    by (rule sint_word_of_int_small)
  moreover from acc r have "product_entry long_long_arith A B i j = Some (word_of_int ?S)"
    by (simp add: product_entry_def long_long_fields del: of_int_sum)
  ultimately show ?thesis by blast
qed

section \<open>The claims\<close>

subsection \<open>C1: the entries of the product\<close>

text \<open>
  Claim C1, as amended. Let \<open>A\<close> and \<open>B\<close> hold \<open>rows * cols\<close> elements each, with
  \<open>A.cols() = B.rows()\<close>, let the result have no more than \<^verbatim>\<open>max_size()\<close>
  elements, and let every operation on the elements be defined. Then
  \<open>multiply(A, B)\<close> returns a matrix \<open>C\<close> with the rows of \<open>A\<close> and the columns of
  \<open>B\<close>, and for \<open>i < A.rows()\<close> and \<open>j < B.cols()\<close>, \<open>C(i, j)\<close> is the sum of the
  products \<open>A(i, k) * B(k, j)\<close> as the code's arithmetic has it: each product is
  taken on the elements and added, for \<open>k\<close> from \<open>0\<close> upwards, to a \<^verbatim>\<open>double\<close>
  that starts at \<^verbatim>\<open>0.0\<close>, and the final \<^verbatim>\<open>double\<close> is converted to \<^verbatim>\<open>T\<close>
  (\<open>product_entry\<close>). For \<^verbatim>\<open>T = long long\<close>, where the absolute values of the
  products of each entry add up to less than \<open>2 ^ 53\<close>, every operation is
  defined, nothing is rounded, and \<open>C(i, j)\<close> is the sum in the integers.
\<close>

theorem multiply_entries:
  fixes A B :: "'a Matrix" and ops :: "('a, 'p, 'd) arith" and L R :: "long_long Matrix"
  shows "(well_formed A \<and> well_formed B \<and> cols A = rows B \<and>
          unat (rows A) * unat (cols B) \<le> unat (max_size ops) \<and>
          (\<forall>i<unat (rows A). \<forall>j<unat (cols B). product_entry ops A B i j \<noteq> None) \<longrightarrow>
          (\<exists>C. multiply ops A B = Inr C \<and> rows C = rows A \<and> cols C = cols B \<and>
             (\<forall>i j. i < rows A \<longrightarrow> j < cols B \<longrightarrow>
                (\<exists>v. product_entry ops A B (unat i) (unat j) = Some v \<and>
                     elem_at C i j = Inr v)))) \<and>
         (well_formed L \<and> well_formed R \<and> cols L = rows R \<and>
          unat (rows L) * unat (cols R) \<le> unat (max_size long_long_arith) \<and>
          (\<forall>i<unat (rows L). \<forall>j<unat (cols R). dot_abs L R i j < 2 ^ 53) \<longrightarrow>
          (\<exists>C. multiply long_long_arith L R = Inr C \<and> rows C = rows L \<and> cols C = cols R \<and>
             (\<forall>i j. i < rows L \<longrightarrow> j < cols R \<longrightarrow>
                (\<exists>v. elem_at C i j = Inr v \<and> sint v = dot L R (unat i) (unat j)))))"
proof (intro conjI impI)
  assume h: "well_formed A \<and> well_formed B \<and> cols A = rows B \<and>
      unat (rows A) * unat (cols B) \<le> unat (max_size ops) \<and>
      (\<forall>i<unat (rows A). \<forall>j<unat (cols B). product_entry ops A B i j \<noteq> None)"
  then have "\<exists>fr. multiply_frame ops A B = Inr fr \<and> arg_A fr = A \<and> arg_B fr = B \<and>
           rows (local_C fr) = rows A \<and> cols (local_C fr) = cols B \<and>
           well_formed (local_C fr) \<and>
           (\<forall>i j. i < rows A \<longrightarrow> j < cols B \<longrightarrow>
              (\<exists>v. product_entry ops A B (unat i) (unat j) = Some v \<and>
                   elem_at (local_C fr) i j = Inr v))"
    by (intro multiply_frame_closed_form) simp_all
  then obtain fr where "multiply_frame ops A B = Inr fr"
    and "rows (local_C fr) = rows A" "cols (local_C fr) = cols B"
    and "\<forall>i j. i < rows A \<longrightarrow> j < cols B \<longrightarrow>
           (\<exists>v. product_entry ops A B (unat i) (unat j) = Some v \<and>
                elem_at (local_C fr) i j = Inr v)"
    by blast
  then show "\<exists>C. multiply ops A B = Inr C \<and> rows C = rows A \<and> cols C = cols B \<and>
             (\<forall>i j. i < rows A \<longrightarrow> j < cols B \<longrightarrow>
                (\<exists>v. product_entry ops A B (unat i) (unat j) = Some v \<and>
                     elem_at C i j = Inr v))"
    by (simp add: multiply_def)
next
  assume h: "well_formed L \<and> well_formed R \<and> cols L = rows R \<and>
      unat (rows L) * unat (cols R) \<le> unat (max_size long_long_arith) \<and>
      (\<forall>i<unat (rows L). \<forall>j<unat (cols R). dot_abs L R i j < 2 ^ 53)"
  have ex: "\<exists>v. product_entry long_long_arith L R i j = Some v \<and> sint v = dot L R i j"
    if "i < unat (rows L)" "j < unat (cols R)" for i j
  proof -
    from h that have "dot_abs L R i j < 2 ^ 53" by blast
    then have "(\<Sum>k<unat (cols L). \<bar>sint (entry L i k)\<bar> * \<bar>sint (entry R k j)\<bar>) < 2 ^ 53"
      unfolding dot_abs_def .
    from product_entry_long_long_exact [OF this] show ?thesis
      unfolding dot_def .
  qed
  then have df: "\<forall>i<unat (rows L). \<forall>j<unat (cols R).
      product_entry long_long_arith L R i j \<noteq> None"
    by fastforce
  with h have "\<exists>fr. multiply_frame long_long_arith L R = Inr fr \<and>
           arg_A fr = L \<and> arg_B fr = R \<and>
           rows (local_C fr) = rows L \<and> cols (local_C fr) = cols R \<and>
           well_formed (local_C fr) \<and>
           (\<forall>i j. i < rows L \<longrightarrow> j < cols R \<longrightarrow>
              (\<exists>v. product_entry long_long_arith L R (unat i) (unat j) = Some v \<and>
                   elem_at (local_C fr) i j = Inr v))"
    by (intro multiply_frame_closed_form) simp_all
  then obtain fr where m: "multiply_frame long_long_arith L R = Inr fr"
    and d: "rows (local_C fr) = rows L" "cols (local_C fr) = cols R"
    and e: "\<And>i j. i < rows L \<Longrightarrow> j < cols R \<Longrightarrow>
           \<exists>v. product_entry long_long_arith L R (unat i) (unat j) = Some v \<and>
                elem_at (local_C fr) i j = Inr v"
    by blast
  have "\<exists>v. elem_at (local_C fr) i j = Inr v \<and> sint v = dot L R (unat i) (unat j)"
    if i: "i < rows L" and j: "j < cols R" for i j
  proof -
    from i j have "unat i < unat (rows L)" "unat j < unat (cols R)"
      by (simp_all add: word_less_nat_alt)
    from ex [OF this] e [OF i j] show ?thesis by auto
  qed
  with m d show "\<exists>C. multiply long_long_arith L R = Inr C \<and> rows C = rows L \<and>
      cols C = cols R \<and>
      (\<forall>i j. i < rows L \<longrightarrow> j < cols R \<longrightarrow>
         (\<exists>v. elem_at C i j = Inr v \<and> sint v = dot L R (unat i) (unat j)))"
    by (simp add: multiply_def)
qed

theorem multiply_entries_witness:
  "well_formed A22 \<and> well_formed B22 \<and> cols A22 = rows B22 \<and>
   unat (rows A22) * unat (cols B22) \<le> unat (max_size long_long_arith) \<and>
   unat (rows A22) = 2 \<and> unat (cols B22) = 2 \<and>
   product_entry long_long_arith A22 B22 0 0 = Some 19 \<and>
   product_entry long_long_arith A22 B22 0 1 = Some 22 \<and>
   product_entry long_long_arith A22 B22 1 0 = Some 43 \<and>
   product_entry long_long_arith A22 B22 1 1 = Some 50 \<and>
   dot_abs A22 B22 0 0 = 19 \<and> dot_abs A22 B22 0 1 = 22 \<and>
   dot_abs A22 B22 1 0 = 43 \<and> dot_abs A22 B22 1 1 = 50 \<and>
   (\<exists>C. multiply long_long_arith A22 B22 = Inr C \<and> rows C = 2 \<and> cols C = 2 \<and>
      elem_at C 0 0 = Inr 19 \<and> elem_at C 0 1 = Inr 22 \<and>
      elem_at C 1 0 = Inr 43 \<and> elem_at C 1 1 = Inr 50) \<and>
   (\<exists>C v. multiply long_long_arith A22 B22 = Inr C \<and> elem_at C 1 0 = Inr v \<and>
      sint v = dot A22 B22 1 0 \<and> dot A22 B22 1 0 = 3 * 5 + 4 * 7)"
proof -
  note t = multiply_entries [of A22 B22 long_long_arith A22 B22]
  have h: "well_formed A22 \<and> well_formed B22 \<and> cols A22 = rows B22 \<and>
      unat (rows A22) * unat (cols B22) \<le> unat (max_size long_long_arith)"
    using A22_facts by simp
  have n: "unat (rows A22) = 2" "unat (cols B22) = 2"
    by (simp_all add: A22_def B22_def rows_def cols_def)
  have small: "\<forall>i<unat (rows A22). \<forall>j<unat (cols B22). dot_abs A22 B22 i j < 2 ^ 53"
    by (auto simp: n less_2_cases_iff A22_dot_abs_values)
  from t h A22_defined
  obtain C where m: "multiply long_long_arith A22 B22 = Inr C"
    and r: "rows C = rows A22" and c: "cols C = cols B22"
    and e: "\<And>i j. i < rows A22 \<Longrightarrow> j < cols B22 \<Longrightarrow>
      \<exists>v. product_entry long_long_arith A22 B22 (unat i) (unat j) = Some v \<and>
          elem_at C i j = Inr v"
    by blast
  have two: "rows A22 = 2" "cols B22 = 2"
    by (simp_all add: A22_def B22_def cols_def rows_def)
  have "elem_at C 0 0 = Inr 19" "elem_at C 0 1 = Inr 22"
    "elem_at C 1 0 = Inr 43" "elem_at C 1 1 = Inr 50"
    using e [of 0 0] e [of 0 1] e [of 1 0] e [of 1 1]
    by (simp_all add: two A22_entries)
  with m r c two have first: "\<exists>C. multiply long_long_arith A22 B22 = Inr C \<and>
      rows C = 2 \<and> cols C = 2 \<and>
      elem_at C 0 0 = Inr 19 \<and> elem_at C 0 1 = Inr 22 \<and>
      elem_at C 1 0 = Inr 43 \<and> elem_at C 1 1 = Inr 50"
    by auto
  from t h small
  obtain C' where m': "multiply long_long_arith A22 B22 = Inr C'"
    and e': "\<And>i j. i < rows A22 \<Longrightarrow> j < cols B22 \<Longrightarrow>
      \<exists>v. elem_at C' i j = Inr v \<and> sint v = dot A22 B22 (unat i) (unat j)"
    by blast
  from e' [of 1 0] obtain v where "elem_at C' 1 0 = Inr v" "sint v = dot A22 B22 1 0"
    by (auto simp: two)
  moreover have "dot A22 B22 1 0 = 3 * 5 + 4 * 7"
  proof -
    have "unat (cols A22) = Suc (Suc 0)" by (simp add: A22_def cols_def)
    then show ?thesis
      by (simp add: dot_def lessThan_Suc entry_def) (simp add: A22_def B22_def cols_def)
  qed
  ultimately have second: "\<exists>C v. multiply long_long_arith A22 B22 = Inr C \<and>
      elem_at C 1 0 = Inr v \<and> sint v = dot A22 B22 1 0 \<and> dot A22 B22 1 0 = 3 * 5 + 4 * 7"
    using m' by blast
  have vals: "product_entry long_long_arith A22 B22 0 0 = Some 19"
    "product_entry long_long_arith A22 B22 0 1 = Some 22"
    "product_entry long_long_arith A22 B22 1 0 = Some 43"
    "product_entry long_long_arith A22 B22 1 1 = Some 50"
    "dot_abs A22 B22 0 0 = 19" "dot_abs A22 B22 0 1 = 22"
    "dot_abs A22 B22 1 0 = 43" "dot_abs A22 B22 1 1 = 50"
    by (simp_all add: A22_entries A22_dot_abs_values)
  from h n vals first second show ?thesis by blast
qed

text \<open>
  C1 as stated fails for \<^verbatim>\<open>long long\<close> at \<open>{{2 ^ 53 + 1}}\<close> times \<open>{{1}}\<close>: the
  sum is \<open>2 ^ 53 + 1\<close>, no \<^verbatim>\<open>double\<close> holds it, the accumulator rounds, and
  \<open>C(0, 0)\<close> is \<open>2 ^ 53\<close>. It fails too where the result has more than
  \<^verbatim>\<open>max_size()\<close> elements (\<open>2 ^ 31\<close> rows and no column, times no row and
  \<open>2 ^ 31\<close> columns: the vector throws \<^verbatim>\<open>std::length_error\<close>) and where a product
  is not defined (\<open>{{2 ^ 62}}\<close> times \<open>{{2}}\<close>).
\<close>

theorem multiply_rounds_counterexample:
  "cols P11 = rows I11 \<and>
   elem_at P11 0 0 = Inr (2 ^ 53 + 1) \<and> elem_at I11 0 0 = Inr 1 \<and>
   multiply long_long_arith P11 I11 = Inr \<lparr>rows_m = 1, cols_m = 1, data_m = [2 ^ 53]\<rparr> \<and>
   (2 ^ 53 + 1) * 1 \<noteq> (2 ^ 53 :: long_long) \<and>
   cols tall31 = rows wide31 \<and> multiply long_long_arith tall31 wide31 = Inl Length_error \<and>
   cols Q11 = rows D11 \<and> multiply long_long_arith Q11 D11 = Inl Undefined_behaviour"
proof -
  have t: "to_double 9007199254740993 = 9007199254740992"
    "to_double 9007199254740992 = 9007199254740992"
    using to_double_tie to_double_two_53 by simp_all
  have "multiply long_long_arith P11 I11 = Inr \<lparr>rows_m = 1, cols_m = 1, data_m = [2 ^ 53]\<rparr>"
    unfolding multiply_def multiply_frame_def construct_def
    by (simp add: loop_i.simps loop_j.simps loop_k.simps elem_at_def elem_assign_def
        offset_def rows_def cols_def P11_def I11_def long_long_fields t)
  moreover have "multiply long_long_arith tall31 wide31 = Inl Length_error"
    unfolding multiply_def multiply_frame_def construct_def
    by (simp add: rows_def cols_def tall31_def wide31_def long_long_fields)
  moreover have "multiply long_long_arith Q11 D11 = Inl Undefined_behaviour"
    unfolding multiply_def multiply_frame_def construct_def
    by (simp add: loop_i.simps loop_j.simps loop_k.simps elem_at_def elem_assign_def
        offset_def rows_def cols_def Q11_def D11_def long_long_fields)
  moreover have "elem_at P11 0 0 = Inr (2 ^ 53 + 1)" "elem_at I11 0 0 = Inr 1"
    by (simp_all add: elem_at_def offset_def P11_def I11_def)
  moreover have "cols P11 = rows I11" "cols tall31 = rows wide31" "cols Q11 = rows D11"
    by (simp_all add: rows_def cols_def P11_def I11_def tall31_def wide31_def Q11_def D11_def)
  ultimately show ?thesis by simp
qed

subsection \<open>C2: the dimension check\<close>

text \<open>
  Claim C2. For all matrices \<open>A\<close> and \<open>B\<close>, \<open>multiply(A, B)\<close> fails with
  \<open>DimensionMismatch\<close> (the \<^verbatim>\<open>std::runtime_error\<close> thrown by the check) if and
  only if \<open>A.cols() \<noteq> B.rows()\<close>, and on that failure no result matrix is
  produced. Nothing is assumed of \<open>A\<close> and \<open>B\<close>: past the check the call
  returns, or the vector of the result throws \<^verbatim>\<open>std::length_error\<close>, or the
  loops run into undefined behaviour, never into this exception.
\<close>

theorem multiply_dimension_mismatch:
  "(multiply ops A B = Inl DimensionMismatch \<longleftrightarrow> cols A \<noteq> rows B) \<and>
   (cols A \<noteq> rows B \<longrightarrow> (\<forall>C. multiply ops A B \<noteq> Inr C))"
proof -
  have "multiply ops A B \<noteq> Inl DimensionMismatch" if eq: "cols A = rows B"
  proof
    assume "multiply ops A B = Inl DimensionMismatch"
    with eq have "construct ops (rows A) (cols B) = Inl DimensionMismatch \<or>
        (\<exists>C0. loop_i ops \<lparr>arg_A = A, arg_B = B, local_C = C0\<rparr> 0 = Inl DimensionMismatch)"
      by (auto simp: multiply_def multiply_frame_def split: sum.splits)
    then show False
    proof
      assume "construct ops (rows A) (cols B) = Inl DimensionMismatch"
      then show False
        by (simp add: construct_def DimensionMismatch_def split: if_splits)
    next
      assume "\<exists>C0. loop_i ops \<lparr>arg_A = A, arg_B = B, local_C = C0\<rparr> 0 = Inl DimensionMismatch"
      then obtain C0 where
        "loop_i ops \<lparr>arg_A = A, arg_B = B, local_C = C0\<rparr> 0 = Inl DimensionMismatch" ..
      then have "DimensionMismatch = Undefined_behaviour" by (rule loop_i_error)
      then show False by (simp add: DimensionMismatch_def)
    qed
  qed
  then show ?thesis
    by (auto simp: multiply_def multiply_frame_def DimensionMismatch_def)
qed

theorem multiply_dimension_mismatch_witness:
  "cols A23 \<noteq> rows B22 \<and> multiply long_long_arith A23 B22 = Inl DimensionMismatch \<and>
   cols A22 = rows B22 \<and> multiply long_long_arith A22 B22 \<noteq> Inl DimensionMismatch"
  using multiply_dimension_mismatch [of long_long_arith A23 B22]
    multiply_dimension_mismatch [of long_long_arith A22 B22]
  by (simp add: A23_def A22_def B22_def rows_def cols_def)

subsection \<open>C3: indices out of range\<close>

text \<open>
  Claim C3, as amended. \<open>get(r, c)\<close> and \<open>set(r, c, value)\<close> check neither index
  and never throw, \<open>IndexOutOfRange\<close> or any other exception, for any matrix and
  any \<open>r\<close> and \<open>c\<close>: they access the buffer at the offset \<open>r * cols + c\<close>, which
  is computed in \<^verbatim>\<open>size_t\<close>, that is modulo \<open>2 ^ 64\<close>. Where this offset is below
  the length of the buffer, also with \<open>r \<ge> rows\<close> or \<open>c \<ge> cols\<close>, \<open>get\<close>
  returns the element stored there and \<open>set\<close> overwrites it and nothing else;
  where it is not, the access is beyond the buffer, which is undefined
  behaviour.
\<close>

theorem unchecked_access:
  "offset M r c = (unat r * unat (cols M) + unat c) mod 2 ^ 64 \<and>
   (offset M r c < length (data_m M) \<longrightarrow>
      elem_at M r c = Inr (data_m M ! offset M r c) \<and>
      elem_assign M r c v = Inr (M\<lparr>data_m := (data_m M)[offset M r c := v]\<rparr>)) \<and>
   (length (data_m M) \<le> offset M r c \<longrightarrow>
      elem_at M r c = Inl Undefined_behaviour \<and>
      elem_assign M r c v = Inl Undefined_behaviour) \<and>
   (\<forall>msg. elem_at M r c \<noteq> Inl (Runtime_error msg) \<and>
          elem_assign M r c v \<noteq> Inl (Runtime_error msg)) \<and>
   elem_at M r c \<noteq> Inl Length_error \<and> elem_assign M r c v \<noteq> Inl Length_error"
proof (intro conjI impI allI)
  show "offset M r c = (unat r * unat (cols M) + unat c) mod 2 ^ 64"
    by (rule offset_mod)
next
  assume "offset M r c < length (data_m M)"
  then show "elem_at M r c = Inr (data_m M ! offset M r c)"
    and "elem_assign M r c v = Inr (M\<lparr>data_m := (data_m M)[offset M r c := v]\<rparr>)"
    by (simp_all add: elem_at_def elem_assign_def)
next
  assume "length (data_m M) \<le> offset M r c"
  then show "elem_at M r c = Inl Undefined_behaviour"
    and "elem_assign M r c v = Inl Undefined_behaviour"
    by (simp_all add: elem_at_def elem_assign_def)
next
  fix msg
  show "elem_at M r c \<noteq> Inl (Runtime_error msg)"
    and "elem_assign M r c v \<noteq> Inl (Runtime_error msg)"
    by (auto dest: elem_at_error elem_assign_error)
next
  show "elem_at M r c \<noteq> Inl Length_error" and "elem_assign M r c v \<noteq> Inl Length_error"
    by (auto dest: elem_at_error elem_assign_error)
qed

theorem unchecked_access_witness:
  "offset A22 0 2 = 2 \<and> offset A22 0 2 < length (data_m A22) \<and>
   elem_at A22 0 2 = Inr 3 \<and>
   elem_assign A22 0 2 9 = Inr \<lparr>rows_m = 2, cols_m = 2, data_m = [1, 2, 9, 4]\<rparr> \<and>
   offset A22 2 0 = 4 \<and> length (data_m A22) \<le> offset A22 2 0 \<and>
   elem_at A22 2 0 = Inl Undefined_behaviour \<and>
   elem_assign A22 2 0 9 = Inl Undefined_behaviour \<and>
   offset A22 (2 ^ 63) 0 = 0 \<and> offset A22 (2 ^ 63) 0 < length (data_m A22) \<and>
   elem_at A22 (2 ^ 63) 0 = Inr 1 \<and>
   elem_assign A22 (2 ^ 63) 0 9 = Inr \<lparr>rows_m = 2, cols_m = 2, data_m = [9, 2, 3, 4]\<rparr>"
proof -
  have u: "unat (cols A22) = 2" "length (data_m A22) = 4"
    by (simp_all add: A22_def cols_def)
  have d: "data_m A22 ! 2 = 3" "data_m A22 ! 0 = 1"
    "A22\<lparr>data_m := (data_m A22)[2 := 9]\<rparr> = \<lparr>rows_m = 2, cols_m = 2, data_m = [1, 2, 9, 4]\<rparr>"
    "A22\<lparr>data_m := (data_m A22)[0 := 9]\<rparr> = \<lparr>rows_m = 2, cols_m = 2, data_m = [9, 2, 3, 4]\<rparr>"
    by (simp_all add: A22_def list_update_Cons_numeral)
  have o1: "offset A22 0 2 = 2"
    using unchecked_access [of A22 0 2 9] by (simp add: u)
  have o2: "offset A22 2 0 = 4"
    using unchecked_access [of A22 2 0 9] by (simp add: u)
  have o3: "offset A22 (2 ^ 63) 0 = 0"
    using unchecked_access [of A22 "2 ^ 63" 0 9] by (simp add: u)
  from unchecked_access [of A22 0 2 9]
  have "elem_at A22 0 2 = Inr 3"
    "elem_assign A22 0 2 9 = Inr \<lparr>rows_m = 2, cols_m = 2, data_m = [1, 2, 9, 4]\<rparr>"
    unfolding o1 by (simp_all add: u d)
  moreover from unchecked_access [of A22 2 0 9]
  have "elem_at A22 2 0 = Inl Undefined_behaviour"
    "elem_assign A22 2 0 9 = Inl Undefined_behaviour"
    unfolding o2 by (simp_all add: u)
  moreover from unchecked_access [of A22 "2 ^ 63" 0 9]
  have "elem_at A22 (2 ^ 63) 0 = Inr 1"
    "elem_assign A22 (2 ^ 63) 0 9 = Inr \<lparr>rows_m = 2, cols_m = 2, data_m = [9, 2, 3, 4]\<rparr>"
    unfolding o3 by (simp_all add: u d)
  ultimately show ?thesis using o1 o2 o3 u by simp
qed

text \<open>
  C3 as stated fails on \<open>{{1, 2}, {3, 4}}\<close>: the column \<open>2\<close> is out of range,
  \<open>get(0, 2)\<close> returns \<open>3\<close>, the element \<open>(1, 0)\<close>, and \<open>set(0, 2, 9)\<close>
  overwrites it. The header says of the check: not implemented here, but could
  be added.
\<close>

theorem unchecked_access_counterexample:
  "\<not> (2 :: size_t) < cols A22 \<and> elem_at A22 0 2 = Inr 3 \<and>
   elem_assign A22 0 2 9 = Inr \<lparr>rows_m = 2, cols_m = 2, data_m = [1, 2, 9, 4]\<rparr>"
  by (simp add: A22_def cols_def elem_at_def elem_assign_def offset_def list_update_Cons_numeral)

subsection \<open>C4: a dimension that is zero\<close>

text \<open>
  Claim C4, as amended. For all \<open>rows\<close> and \<open>cols\<close> with \<open>rows = 0\<close> or
  \<open>cols = 0\<close>, \<open>construct(rows, cols)\<close> does not fail: it yields the matrix of
  these dimensions with an empty buffer. In particular \<open>construct(0, 3)\<close> yields
  a matrix with no row, three columns and no element.
\<close>

theorem construct_zero_dimension:
  assumes "r = 0 \<or> c = 0"
  shows "construct ops r c = Inr \<lparr>rows_m = r, cols_m = c, data_m = []\<rparr>"
proof -
  from assms have "r * c = 0" by auto
  then show ?thesis by (simp add: construct_def)
qed

theorem construct_zero_dimension_witness:
  "((0 :: size_t) = 0 \<or> (3 :: size_t) = 0) \<and>
   construct long_long_arith 0 3 = Inr \<lparr>rows_m = 0, cols_m = 3, data_m = []\<rparr>"
  using construct_zero_dimension [of 0 3 long_long_arith] by simp

text \<open>
  C4 as stated fails at \<open>construct(0, 3)\<close>, which returns. The header says of the
  exception: not thrown by this code, but such checks could be added.
\<close>

theorem construct_zero_dimension_counterexample:
  "construct long_long_arith 0 3 = Inr \<lparr>rows_m = 0, cols_m = 3, data_m = []\<rparr> \<and>
   (\<forall>msg. construct long_long_arith 0 3 \<noteq> Inl (Runtime_error msg))"
  by (simp add: construct_def)

subsection \<open>C5: the accumulator\<close>

text \<open>
  Claim C5 compares the width of the type of the accumulator with that of
  \<^verbatim>\<open>double\<close>, for every element type \<^verbatim>\<open>T\<close>. The accumulator is the local
  \<^verbatim>\<open>double sum\<close> of the loop over \<open>j\<close>, whatever \<^verbatim>\<open>T\<close> is, and it is converted
  to \<^verbatim>\<open>T\<close> once, in \<^verbatim>\<open>C(i, j) = sum\<close>: this is how \<open>loop_j\<close> and \<open>loop_k\<close> are
  written and what \<open>product_entry\<close> folds. The width of a floating-point type
  is not a property of values that a theorem over these definitions could
  state: in the record of operations \<^verbatim>\<open>double\<close> is a type variable, and in
  \<open>long_long_arith\<close> its 53 significant bits are those \<open>to_double\<close> is defined
  with. What the accumulator does to the entries of the product is in C1.
\<close>

subsection \<open>C6: construction from a nested literal\<close>

text \<open>
  Claim C6. For every nested literal with at least one row (a literal as the
  constructor can be given it, \<open>literal_fits\<close>): if some row has another length
  than the first, the construction fails with
  \<open>InconsistentShape\<close> (the \<^verbatim>\<open>std::runtime_error\<close> of the constructor) and no
  matrix is produced; if all rows have the length of the first, the matrix has
  as many rows as the literal, as many columns as the first row has elements,
  its buffer is the rows of the literal one after the other, and \<open>get(r, c)\<close>
  returns the element \<open>c\<close> of row \<open>r\<close>.
\<close>

theorem construct_list_shape:
  assumes fits: "literal_fits (first # rest)"
  shows "((\<exists>row\<in>set rest. length row \<noteq> length first) \<longrightarrow>
            construct_list ops (first # rest) = Inl InconsistentShape) \<and>
         ((\<forall>row\<in>set rest. length row = length first) \<longrightarrow>
            (\<exists>M. construct_list ops (first # rest) = Inr M \<and>
               unat (rows M) = length (first # rest) \<and> unat (cols M) = length first \<and>
               data_m M = concat (first # rest) \<and>
               (\<forall>r c. r < length (first # rest) \<longrightarrow> c < length first \<longrightarrow>
                  elem_at M (of_nat r) (of_nat c) = Inr ((first # rest) ! r ! c))))"
proof -
  let ?vs = "first # rest"
  let ?n = "length ?vs" and ?cn = "length first"
  let ?r = "of_nat ?n :: size_t" and ?c = "of_nat ?cn :: size_t"
  let ?d = "replicate (unat (?r * ?c)) (value_init ops)"
  from fits have n: "?n < 2 ^ 64" and cn: "?cn < 2 ^ 64"
    and rows: "\<forall>row\<in>set ?vs. length row < 2 ^ 64" and prod: "?n * ?cn < 2 ^ 64"
    by (simp_all add: literal_fits_def)
  have ur: "unat ?r = ?n" using n by (rule unat_of_nat_size_t)
  have uc: "unat ?c = ?cn" using cn by (rule unat_of_nat_size_t)
  from prod have "unat ?r * unat ?c < 2 ^ LENGTH(64)" by (simp only: ur uc) simp
  then have "unat (?r * ?c) = unat ?r * unat ?c" by (simp only: unat_mult_lem)
  then have len: "length ?d = ?n * ?cn" by (simp only: ur uc length_replicate)
  have run: "((\<forall>row\<in>set ?vs. length row = ?cn) \<longrightarrow>
            (\<exists>i'. fill_rows ?c ?vs ([] @ ?d, 0) = Inr ([] @ concat ?vs @ drop (?n * ?cn) ?d, i'))) \<and>
         (\<not> (\<forall>row\<in>set ?vs. length row = ?cn) \<longrightarrow>
            fill_rows ?c ?vs ([] @ ?d, 0) = Inl InconsistentShape)"
    using prod cn rows by (intro fill_rows_run) (simp_all only: len, simp_all)
  have unfold: "construct_list ops ?vs =
      (case fill_rows ?c ?vs (?d, 0) of
         Inl e \<Rightarrow> Inl e
       | Inr (d', i) \<Rightarrow> Inr \<lparr>rows_m = ?r, cols_m = ?c, data_m = d'\<rparr>)"
    by (simp only: construct_list_def list.case Let_def)
  show ?thesis
  proof (intro conjI impI)
    assume "\<exists>row\<in>set rest. length row \<noteq> length first"
    then have "\<not> (\<forall>row\<in>set ?vs. length row = ?cn)" by auto
    with run have "fill_rows ?c ?vs (?d, 0) = Inl InconsistentShape" by simp
    then show "construct_list ops ?vs = Inl InconsistentShape"
      by (simp only: unfold sum.case)
  next
    assume "\<forall>row\<in>set rest. length row = length first"
    then have all: "\<forall>row\<in>set ?vs. length row = ?cn" by simp
    from run have "(\<forall>row\<in>set ?vs. length row = ?cn) \<longrightarrow>
        (\<exists>i'. fill_rows ?c ?vs ([] @ ?d, 0) =
          Inr ([] @ concat ?vs @ drop (?n * ?cn) ?d, i'))"
      by (rule conjunct1)
    then have "\<exists>i'. fill_rows ?c ?vs ([] @ ?d, 0) =
        Inr ([] @ concat ?vs @ drop (?n * ?cn) ?d, i')"
      using all by (rule mp)
    moreover have "drop (?n * ?cn) ?d = []" by (simp only: len drop_all order_refl)
    ultimately obtain i' where "fill_rows ?c ?vs (?d, 0) = Inr (concat ?vs, i')"
      by (auto simp only: append_Nil append_Nil2)
    then have c: "construct_list ops ?vs = Inr \<lparr>rows_m = ?r, cols_m = ?c, data_m = concat ?vs\<rparr>"
      by (simp only: unfold sum.case prod.case)
    let ?M = "\<lparr>rows_m = ?r, cols_m = ?c, data_m = concat ?vs\<rparr>"
    have dims: "rows ?M = ?r" "cols ?M = ?c" by (simp_all add: rows_def cols_def)
    have lc: "length (concat ?vs) = ?n * ?cn" using all by (rule length_concat_rows)
    have wf: "well_formed ?M"
      using prod unfolding well_formed_def dims ur uc by (simp only: lc Matrix.simps)
    have el: "elem_at ?M (of_nat r) (of_nat c) = Inr (?vs ! r ! c)"
      if r: "r < ?n" and c: "c < ?cn" for r c
    proof -
      from r n have u: "unat (of_nat r :: size_t) = r" by (intro unat_of_nat_size_t) simp
      from c cn have v: "unat (of_nat c :: size_t) = c" by (intro unat_of_nat_size_t) simp
      have "(of_nat r :: size_t) < rows ?M" "(of_nat c :: size_t) < cols ?M"
        using r c by (simp_all only: dims word_less_nat_alt u v ur uc)
      with wf have "elem_at ?M (of_nat r) (of_nat c) = Inr (entry ?M r c)"
        by (simp only: elem_at_entry u v)
      also have "entry ?M r c = concat ?vs ! (r * ?cn + c)"
        by (simp only: entry_def dims uc Matrix.simps)
      also have "\<dots> = ?vs ! r ! c" using all r c by (rule nth_concat_rows)
      finally show ?thesis .
    qed
    have "unat (rows ?M) = ?n" "unat (cols ?M) = ?cn" "data_m ?M = concat ?vs"
      by (simp_all only: dims ur uc Matrix.simps)
    with c el show "\<exists>M. construct_list ops ?vs = Inr M \<and>
               unat (rows M) = ?n \<and> unat (cols M) = ?cn \<and>
               data_m M = concat ?vs \<and>
               (\<forall>r c. r < ?n \<longrightarrow> c < ?cn \<longrightarrow>
                  elem_at M (of_nat r) (of_nat c) = Inr (?vs ! r ! c))"
      by blast
  qed
qed

theorem construct_list_shape_witness:
  "literal_fits [[1, 2], [3, 4 :: long_long]] \<and>
   (\<exists>M. construct_list long_long_arith [[1, 2], [3, 4]] = Inr M \<and>
      unat (rows M) = 2 \<and> unat (cols M) = 2 \<and> data_m M = [1, 2, 3, 4] \<and>
      elem_at M 1 0 = Inr 3) \<and>
   literal_fits [[1, 2], [3 :: long_long]] \<and>
   construct_list long_long_arith [[1, 2], [3]] = Inl InconsistentShape"
proof -
  have f1: "literal_fits [[1, 2], [3, 4 :: long_long]]"
    and f2: "literal_fits [[1, 2], [3 :: long_long]]"
    by (simp_all add: literal_fits_def)
  from construct_list_shape [OF f1, of long_long_arith]
  obtain M where "construct_list long_long_arith [[1, 2], [3, 4]] = Inr M"
    "unat (rows M) = 2" "unat (cols M) = 2" "data_m M = [1, 2, 3, 4]"
    and e: "\<And>r c. r < 2 \<Longrightarrow> c < 2 \<Longrightarrow>
      elem_at M (of_nat r) (of_nat c) = Inr ([[1, 2], [3, 4]] ! r ! c)"
    by auto
  moreover from e [of 1 0] have "elem_at M 1 0 = Inr 3" by simp
  moreover from construct_list_shape [OF f2, of long_long_arith]
  have "construct_list long_long_arith [[1, 2], [3]] = Inl InconsistentShape" by simp
  ultimately show ?thesis using f1 f2 by blast
qed

subsection \<open>C7: construction with dimensions\<close>

text \<open>
  Claim C7 is what the header says of the constructor: a matrix with the given
  number of rows and columns, all elements initialized to zero. Where the
  natural product \<open>rows * cols\<close> is no more than \<^verbatim>\<open>max_size()\<close> the code does
  this (lemma \<open>construct_zero_filled\<close>). Where the product wraps around in
  \<^verbatim>\<open>size_t\<close> it does not: the constructor multiplies without a check, so
  \<^verbatim>\<open>Matrix<long long>(4294967296, 4294967296)\<close> returns a matrix of \<open>2 ^ 32\<close>
  rows and columns whose buffer has \<open>2 ^ 64 mod 2 ^ 64 = 0\<close> elements, and
  \<open>get(0, 0)\<close>, in bounds, reads beyond the buffer instead of returning zero.
\<close>

theorem construct_wraps:
  "construct long_long_arith (2 ^ 32) (2 ^ 32) = Inr huge \<and>
   rows huge = 2 ^ 32 \<and> cols huge = 2 ^ 32 \<and> 0 < rows huge \<and> 0 < cols huge \<and>
   elem_at huge 0 0 = Inl Undefined_behaviour"
  by (simp add: construct_def huge_def rows_def cols_def elem_at_def offset_def long_long_fields)

subsection \<open>C8: the operands\<close>

text \<open>
  Claim C8. Whenever \<open>multiply(A, B)\<close> returns, the objects \<open>A\<close> and \<open>B\<close> are
  what they were before the call, dimensions and buffer, and the value returned
  is the third object of the frame, the local \<open>C\<close>. Nothing is assumed of \<open>A\<close>
  and \<open>B\<close>. The same state stands for both operands when they are one object,
  since neither is written. A call that throws has assigned nothing: the check
  is its first statement.
\<close>

theorem multiply_leaves_operands:
  assumes "multiply_frame ops A B = Inr fr"
  shows "arg_A fr = A \<and> arg_B fr = B \<and> multiply ops A B = Inr (local_C fr)"
proof -
  from assms obtain C0 where
    "loop_i ops \<lparr>arg_A = A, arg_B = B, local_C = C0\<rparr> 0 = Inr fr"
    by (auto simp: multiply_frame_def split: if_splits sum.splits)
  from loop_i_frame [OF this] assms show ?thesis
    by (simp add: multiply_def)
qed

theorem multiply_leaves_operands_witness:
  "multiply_frame long_long_arith A22 B22 =
     Inr \<lparr>arg_A = A22, arg_B = B22,
          local_C = \<lparr>rows_m = 2, cols_m = 2, data_m = [19, 22, 43, 50]\<rparr>\<rparr> \<and>
   multiply long_long_arith A22 B22 = Inr \<lparr>rows_m = 2, cols_m = 2, data_m = [19, 22, 43, 50]\<rparr>"
  using multiply_leaves_operands [OF product_22] product_22 by simp

subsection \<open>C9: the size of the buffer\<close>

text \<open>
  Claim C9 is the comment on the member \<^verbatim>\<open>data_\<close>: a vector of size
  \<open>rows_ * cols_\<close> holding all elements. The accessors and the product keep
  dimensions and length as they are (lemmas \<open>elem_assign_same_shape\<close> and
  \<open>loop_i_frame\<close>), and the constructor establishes the invariant where the
  natural product \<open>rows * cols\<close> is no more than \<^verbatim>\<open>max_size()\<close> (lemma
  \<open>construct_zero_filled\<close>). Its unchecked product in \<^verbatim>\<open>size_t\<close> breaks it:
  \<^verbatim>\<open>Matrix<long long>(4294967296, 4294967296)\<close> is constructed with \<open>2 ^ 32\<close>
  rows, \<open>2 ^ 32\<close> columns and a buffer of no element, where
  \<open>rows() * cols()\<close> is \<open>2 ^ 64\<close>.
\<close>

theorem buffer_size_wraps:
  "construct long_long_arith (2 ^ 32) (2 ^ 32) = Inr huge \<and>
   length (data_m huge) = 0 \<and> unat (rows huge) * unat (cols huge) = 2 ^ 64"
  by (simp add: construct_def huge_def rows_def cols_def long_long_fields)

subsection \<open>C10: assignment, then read\<close>

text \<open>
  Claim C10 holds of every matrix whose buffer has \<open>rows * cols\<close> elements
  (lemma \<open>assign_then_read_well_formed\<close>). The constructor returns matrices of
  which it does not hold, where its unchecked product \<open>rows * cols\<close> wraps
  around: \<^verbatim>\<open>Matrix<long long>(9223372036854775809, 2)\<close> has \<open>2 ^ 63 + 1\<close> rows,
  two columns and a buffer of \<open>(2 ^ 64 + 2) mod 2 ^ 64 = 2\<close> elements. There
  \<open>(2 ^ 63, 0)\<close> and \<open>(0, 0)\<close> are in bounds and distinct, both at offset \<open>0\<close>:
  after \<open>set(2 ^ 63, 0, 7)\<close>, \<open>get(0, 0)\<close> returns \<open>7\<close>, and it returned \<open>0\<close>
  before.
\<close>

theorem assign_overwrites_other:
  "construct long_long_arith (2 ^ 63 + 1) 2 = Inr skew \<and>
   (2 ^ 63 :: size_t) < rows skew \<and> (0 :: size_t) < cols skew \<and> (0 :: size_t) < rows skew \<and>
   ((0, 0) :: size_t \<times> size_t) \<noteq> (2 ^ 63, 0) \<and>
   elem_at skew 0 0 = Inr 0 \<and>
   elem_assign skew (2 ^ 63) 0 7 = Inr (skew\<lparr>data_m := [7, 0]\<rparr>) \<and>
   elem_at (skew\<lparr>data_m := [7, 0]\<rparr>) 0 0 = Inr 7"
  by (simp add: construct_def skew_def rows_def cols_def elem_at_def elem_assign_def
      offset_def long_long_fields word_less_nat_alt replicate_numeral)

end
